theory Spec2Isabelle
  imports Complex_Main "HOL-Library.Word"
begin

section \<open>JavaScript strings and the regular expressions of the form handler\<close>

text \<open>
  A JavaScript string is a sequence of UTF-16 code units. Literals of the source are
  written through \<open>js\<close>, which maps each ASCII character to its code unit.
\<close>

type_synonym jsstring = "16 word list"

definition js :: "string \<Rightarrow> jsstring" where
  "js s = map of_char s"

text \<open>The character classes \<open>\d\<close>, \<open>\s\<close> and the line terminators that \<open>.\<close> excludes.\<close>

definition isDigit :: "16 word \<Rightarrow> bool" where
  "isDigit c \<longleftrightarrow> 0x30 \<le> c \<and> c \<le> 0x39"

definition isLineTerminator :: "16 word \<Rightarrow> bool" where
  "isLineTerminator c \<longleftrightarrow> c = 0x0A \<or> c = 0x0D \<or> c = 0x2028 \<or> c = 0x2029"

definition isSpace :: "16 word \<Rightarrow> bool" where
  "isSpace c \<longleftrightarrow>
     c = 0x09 \<or> c = 0x0A \<or> c = 0x0B \<or> c = 0x0C \<or> c = 0x0D \<or> c = 0x20 \<or> c = 0xA0 \<or>
     c = 0x1680 \<or> (0x2000 \<le> c \<and> c \<le> 0x200A) \<or> c = 0x2028 \<or> c = 0x2029 \<or>
     c = 0x202F \<or> c = 0x205F \<or> c = 0x3000 \<or> c = 0xFEFF"

text \<open>
  Every regular expression of \<open>script.js\<close> is anchored at the start and is a sequence
  of quantified character classes, optionally closed by \<open>$\<close>. \<open>Rep p lo hi cap\<close> is
  the class \<open>p\<close> repeated between \<open>lo\<close> and \<open>hi\<close> times (\<open>None\<close>: unbounded), inside
  a capture group when \<open>cap\<close> holds; \<open>Eos\<close> is \<open>$\<close>.
\<close>

datatype item = Rep "16 word \<Rightarrow> bool" nat "nat option" bool | Eos

text \<open>
  Quantifiers are greedy and backtrack: the longest repetition is tried first and
  shorter ones follow while the rest of the pattern fails.
\<close>

fun backtrack :: "(nat \<Rightarrow> 'a option) \<Rightarrow> nat \<Rightarrow> nat \<Rightarrow> 'a option" where
  "backtrack k lo 0 = (if lo = 0 then k 0 else None)"
| "backtrack k lo (Suc n) =
     (if Suc n < lo then None
      else case k (Suc n) of Some r \<Rightarrow> Some r | None \<Rightarrow> backtrack k lo n)"

text \<open>A match yields the captured groups in order and the input left after the match.\<close>

fun rmatch :: "item list \<Rightarrow> jsstring \<Rightarrow> (jsstring list \<times> jsstring) option" where
  "rmatch [] s = Some ([], s)"
| "rmatch (Eos # its) s = (if s = [] then rmatch its s else None)"
| "rmatch (Rep p lo hi cap # its) s =
     (let avail = length (takeWhile p s);
          mx = (case hi of None \<Rightarrow> avail | Some h \<Rightarrow> min h avail)
      in backtrack
           (\<lambda>n. case rmatch its (drop n s) of
                  None \<Rightarrow> None
                | Some (caps, rest) \<Rightarrow> Some (if cap then take n s # caps else caps, rest))
           lo mx)"

definition test :: "item list \<Rightarrow> jsstring \<Rightarrow> bool" where
  "test re s \<longleftrightarrow> rmatch re s \<noteq> None"

text \<open>\<open>$i\<close> in a replacement template.\<close>

definition grp :: "jsstring list \<Rightarrow> nat \<Rightarrow> jsstring" where
  "grp caps i = (if 0 < i \<and> i \<le> length caps then caps ! (i - 1) else [])"

text \<open>
  \<open>String.prototype.replace\<close> with a start-anchored, non-global pattern: the match, if
  there is one, is replaced by the template and the rest of the input is kept.
\<close>

definition replace :: "item list \<Rightarrow> (jsstring list \<Rightarrow> jsstring) \<Rightarrow> jsstring \<Rightarrow> jsstring" where
  "replace re tmpl s =
     (case rmatch re s of None \<Rightarrow> s | Some (caps, rest) \<Rightarrow> tmpl caps @ rest)"

definition lit :: "char \<Rightarrow> item" where
  "lit c = Rep (\<lambda>x. x = of_char c) 1 (Some 1) False"

text \<open>The declarative reading of a pattern, used to reason about \<open>rmatch\<close>.\<close>

fun accepts :: "item list \<Rightarrow> jsstring \<Rightarrow> bool" where
  "accepts [] s = True"
| "accepts (Eos # its) s = (s = [] \<and> accepts its s)"
| "accepts (Rep p lo hi cap # its) s =
     (\<exists>n. lo \<le> n \<and> n \<le> length s \<and> (case hi of None \<Rightarrow> True | Some h \<Rightarrow> n \<le> h) \<and>
          list_all p (take n s) \<and> accepts its (drop n s))"

subsection \<open>FormHandler.maskPhone\<close>

text \<open>\<open>/^(\d{2})(\d{5})(\d{4}).*/\<close>, \<open>/^(\d{2})(\d{0,5})/\<close> and \<open>/^(\d*)/\<close>.\<close>

definition re_full :: "item list" where
  "re_full = [Rep isDigit 2 (Some 2) True, Rep isDigit 5 (Some 5) True,
              Rep isDigit 4 (Some 4) True, Rep (\<lambda>c. \<not> isLineTerminator c) 0 None False]"

definition re_mid :: "item list" where
  "re_mid = [Rep isDigit 2 (Some 2) True, Rep isDigit 0 (Some 5) True]"

definition re_open :: "item list" where
  "re_open = [Rep isDigit 0 None True]"

text \<open>\<open>/^\(\d{2}\) \d{5}-\d{4}$/\<close>, the shape the validation expects of a phone number.\<close>

definition phoneRegex :: "item list" where
  "phoneRegex = [lit CHR ''('', Rep isDigit 2 (Some 2) False, lit CHR '')'', lit CHR '' '',
                 Rep isDigit 5 (Some 5) False, lit CHR ''-'', Rep isDigit 4 (Some 4) False, Eos]"

text \<open>
  \<open>maskPhone\<close> reads the value of the input, rewrites it and stores it back; the model
  is the function from the value read to the value stored.
\<close>

definition maskPhone :: "jsstring \<Rightarrow> jsstring" where
  "maskPhone raw =
     (let value = filter isDigit raw;
          value = (if length value > 11 then take 11 value else value)
      in if length value > 6 then
           replace re_full (\<lambda>g. js ''('' @ grp g 1 @ js '') '' @ grp g 2 @ js ''-'' @ grp g 3) value
         else if length value > 2 then
           replace re_mid (\<lambda>g. js ''('' @ grp g 1 @ js '') '' @ grp g 2) value
         else if length value > 0 then
           replace re_open (\<lambda>g. js ''('' @ grp g 1) value
         else value)"

section \<open>FormHandler: validation and simulated submission\<close>

text \<open>\<open>String.prototype.trim\<close> removes white space and line terminators at both ends.\<close>

definition trim :: "jsstring \<Rightarrow> jsstring" where
  "trim s = rev (dropWhile isSpace (rev (dropWhile isSpace s)))"

text \<open>\<open>/^[^\s@]+@[^\s@]+\.[^\s@]+$/\<close>.\<close>

definition notSpaceAt :: "16 word \<Rightarrow> bool" where
  "notSpaceAt c \<longleftrightarrow> \<not> isSpace c \<and> c \<noteq> of_char CHR ''@''"

definition emailRegex :: "item list" where
  "emailRegex = [Rep notSpaceAt 1 None False, lit CHR ''@'', Rep notSpaceAt 1 None False,
                 lit CHR ''.'', Rep notSpaceAt 1 None False, Eos]"

text \<open>
  A form control as \<open>validateField\<close> sees it. Elements are identified by numbers:
  \<open>parentElement\<close> is the control's parent and \<open>outer\<close> its further ancestors, which
  the descendant selector of \<open>handleSubmit\<close> also inspects.
\<close>

record field =
  tagName :: string
  ftype :: string
  fvalue :: jsstring
  required :: bool
  defaultValue :: jsstring
  parentElement :: nat
  outer :: "nat list"

record button =
  innerHTML :: string
  disabled :: bool

datatype error = TypeError

datatype timer = SubmitDone string | HideFeedback

text \<open>
  The part of the page the form handler reads and writes: the controls
  \<open>.form__input\<close> in document order, the set of elements bearing the class
  \<open>form__group--error\<close>, the control that last received \<open>focus()\<close> (by position in
  \<open>inputs\<close>), the submit button, the inline \<open>display\<close> of \<open>.form__feedback\<close> and
  \<open>.feedback--success\<close> (\<open>None\<close> when the element is absent), the pending
  \<open>setTimeout\<close> callbacks with their due times, and the number of smooth scrolls
  requested.
\<close>

record form_state =
  inputs :: "field list"
  errorClass :: "nat set"
  focused :: "nat option"
  defaultPrevented :: bool
  submitBtn :: "button option"
  feedback :: "string option"
  successMsg :: "string option"
  timers :: "(nat \<times> timer) list"
  clock :: nat
  scrolls :: nat

definition validateField :: "field \<Rightarrow> form_state \<Rightarrow> bool \<times> form_state" where
  "validateField fld st =
     (let parent = parentElement fld;
          ty = ftype fld;
          value = trim (fvalue fld);
          isValid = True;
          st = st\<lparr>errorClass := errorClass st - {parent}\<rparr>;
          isValid = (if required fld \<and> value = [] then False else isValid);
          isValid = (if ty = ''email'' \<and> value \<noteq> [] then test emailRegex value else isValid);
          isValid = (if ty = ''tel'' \<and> value \<noteq> [] then test phoneRegex value else isValid);
          isValid = (if tagName fld = ''SELECT'' \<and> required fld then value \<noteq> [] else isValid);
          st = (if \<not> isValid then st\<lparr>errorClass := insert parent (errorClass st)\<rparr> else st)
      in (isValid, st))"

text \<open>The \<open>forEach\<close> of \<open>validateForm\<close>, with its flag.\<close>

fun validateAll :: "field list \<Rightarrow> bool \<Rightarrow> form_state \<Rightarrow> bool \<times> form_state" where
  "validateAll [] isValid st = (isValid, st)"
| "validateAll (fld # flds) isValid st =
     (case validateField fld st of
        (ok, st') \<Rightarrow> validateAll flds (if \<not> ok then False else isValid) st')"

definition validateForm :: "form_state \<Rightarrow> bool \<times> form_state" where
  "validateForm st = validateAll (inputs st) True st"

fun findIndex :: "('a \<Rightarrow> bool) \<Rightarrow> 'a list \<Rightarrow> nat option" where
  "findIndex P [] = None"
| "findIndex P (x # xs) = (if P x then Some 0 else map_option Suc (findIndex P xs))"

text \<open>
  \<open>form.querySelector('.form__group--error .form__input')\<close>: the first control, in
  document order, below an element that bears the error class.
\<close>

definition firstError :: "form_state \<Rightarrow> nat option" where
  "firstError st =
     findIndex (\<lambda>fld. list_ex (\<lambda>a. a \<in> errorClass st) (parentElement fld # outer fld)) (inputs st)"

definition handleSubmit :: "form_state \<Rightarrow> error + form_state" where
  "handleSubmit st0 =
     (let st = st0\<lparr>defaultPrevented := True\<rparr>
      in case validateForm st of
        (ok, st) \<Rightarrow>
          if \<not> ok then
            (case firstError st of
               Some i \<Rightarrow> Inr (st\<lparr>focused := Some i\<rparr>)
             | None \<Rightarrow> Inr st)
          else
            (case submitBtn st of
               None \<Rightarrow> Inl TypeError
             | Some b \<Rightarrow>
                 let originalText = innerHTML b;
                     b = b\<lparr>innerHTML := ''<span>Enviando...</span>''\<rparr>;
                     b = b\<lparr>disabled := True\<rparr>
                 in Inr (st\<lparr>submitBtn := Some b,
                            timers := timers st @ [(clock st + 2000, SubmitDone originalText)]\<rparr>)))"

text \<open>The two timer callbacks of \<open>handleSubmit\<close>.\<close>

fun runTimer :: "timer \<Rightarrow> form_state \<Rightarrow> error + form_state" where
  "runTimer (SubmitDone originalText) st =
     (let st = st\<lparr>inputs := map (\<lambda>fld. fld\<lparr>fvalue := defaultValue fld\<rparr>) (inputs st)\<rparr>
      in case feedback st of
        None \<Rightarrow> Inl TypeError
      | Some _ \<Rightarrow>
         (case successMsg st of
            None \<Rightarrow> Inl TypeError
          | Some _ \<Rightarrow>
             Inr (st\<lparr>feedback := Some ''block'',
                      successMsg := Some ''flex'',
                      submitBtn := map_option (\<lambda>b. b\<lparr>innerHTML := originalText, disabled := False\<rparr>)
                                     (submitBtn st),
                      timers := timers st @ [(clock st + 5000, HideFeedback)],
                      scrolls := scrolls st + 1\<rparr>)))"
| "runTimer HideFeedback st =
     (case feedback st of
        None \<Rightarrow> Inl TypeError
      | Some _ \<Rightarrow>
         (case successMsg st of
            None \<Rightarrow> Inl TypeError
          | Some _ \<Rightarrow> Inr (st\<lparr>feedback := Some ''none'', successMsg := Some ''none''\<rparr>)))"

text \<open>
  The event loop runs the pending callback that is due first (the earlier
  registration on a tie) and advances the clock to its due time.
\<close>

fun earliest :: "(nat \<times> 'a) list \<Rightarrow> (nat \<times> 'a) option" where
  "earliest [] = None"
| "earliest (t # ts) =
     (case earliest ts of
        None \<Rightarrow> Some t
      | Some u \<Rightarrow> if fst u < fst t then Some u else Some t)"

definition fireNext :: "form_state \<Rightarrow> error + form_state" where
  "fireNext st =
     (case earliest (timers st) of
        None \<Rightarrow> Inr st
      | Some (due, cb) \<Rightarrow>
          runTimer cb (st\<lparr>timers := remove1 (due, cb) (timers st), clock := max (clock st) due\<rparr>))"

text \<open>
  The spec's reading of an address \<open>local@domain.tld\<close>: three non-empty parts free of
  white space and \<open>@\<close>, joined by \<open>@\<close> and \<open>.\<close>.
\<close>

definition emailShape :: "jsstring \<Rightarrow> bool" where
  "emailShape v \<longleftrightarrow>
     (\<exists>l d t. v = l @ js ''@'' @ d @ js ''.'' @ t \<and> l \<noteq> [] \<and> d \<noteq> [] \<and> t \<noteq> [] \<and>
              list_all notSpaceAt l \<and> list_all notSpaceAt d \<and> list_all notSpaceAt t)"

section \<open>Navigation\<close>

text \<open>
  The part of the page Navigation reads and writes, with its own flag \<open>isOpen\<close>:
  whether \<open>.navbar\<close>, \<open>.navbar__toggle\<close> and \<open>.navbar__menu\<close> exist, whether the menu
  bears \<open>navbar__menu--active\<close>, the toggle's \<open>aria-expanded\<close>, the inline
  \<open>overflow\<close> of the body and whether the bar bears \<open>navbar--scrolled\<close>.
  Reading a property of an absent element raises \<open>TypeError\<close>.
\<close>

record nav_state =
  navbarEl :: bool
  toggleEl :: bool
  menuEl :: bool
  isOpen :: bool
  menuActive :: bool
  ariaExpanded :: "string option"
  bodyOverflow :: string
  navbarScrolled :: bool




definition handleScroll :: "real \<Rightarrow> nav_state \<Rightarrow> error + nav_state" where
  "handleScroll scrollY st =
     (if \<not> navbarEl st then Inl TypeError
      else if scrollY > 50 then Inr (st\<lparr>navbarScrolled := True\<rparr>)
      else Inr (st\<lparr>navbarScrolled := False\<rparr>))"










section \<open>The composition root\<close>

text \<open>
  What the constructors look for on the page: the state of the navigation markup,
  the scroll position, and for every other component whether (or how many of) its
  elements exist, together with the environment tests the constructors make.
\<close>

record page =
  nav :: nav_state
  scrollY :: real
  formEl :: bool
  backToTopEl :: bool
  parallaxLayers :: nat
  revealEls :: nat
  tiltCards :: nat
  counterEls :: nat
  heroScrollEl :: bool
  partnersTrackEl :: bool
  reducedMotion :: bool
  touchDevice :: bool
  nativeLazyLoading :: bool
  performanceTiming :: bool
  hostname :: string

datatype component =
  Navigation | SmoothScroll | FormHandler | BackToTop | ParallaxEffect | ScrollReveal
| CardTilt | AnimatedCounters | HeroScroll | PartnerSlider | LazyImages
| AccessibilityHelpers | PerformanceMonitor

text \<open>
  A constructor that returns either wired its listeners, or applied a final state
  without listeners, or returned early.
\<close>

datatype outcome = Wired | Static | Skipped

text \<open>
  \<open>new Navigation()\<close>: the fields are read from the page, \<open>isOpen\<close> is cleared and
  \<open>init\<close> registers the listeners (the one of the toggle only if it exists) and calls
  \<open>handleScroll\<close> once.
\<close>

definition newNavigation :: "page \<Rightarrow> error + nav_state" where
  "newNavigation pg = handleScroll (scrollY pg) ((nav pg)\<lparr>isOpen := False\<rparr>)"

fun construct :: "page \<Rightarrow> component \<Rightarrow> error + outcome" where
  "construct pg Navigation =
     (case newNavigation pg of Inl e \<Rightarrow> Inl e | Inr _ \<Rightarrow> Inr Wired)"
| "construct pg SmoothScroll = Inr Wired"
| "construct pg FormHandler = (if \<not> formEl pg then Inr Skipped else Inr Wired)"
| "construct pg BackToTop = (if \<not> backToTopEl pg then Inr Skipped else Inr Wired)"
| "construct pg ParallaxEffect =
     (if parallaxLayers pg = 0 then Inr Skipped
      else if reducedMotion pg then Inr Skipped
      else Inr Wired)"
| "construct pg ScrollReveal =
     (if revealEls pg = 0 then Inr Skipped
      else if reducedMotion pg then Inr Static
      else Inr Wired)"
| "construct pg CardTilt =
     (if tiltCards pg = 0 then Inr Skipped
      else if touchDevice pg then Inr Skipped
      else Inr Wired)"
| "construct pg AnimatedCounters = (if counterEls pg = 0 then Inr Skipped else Inr Wired)"
| "construct pg HeroScroll = (if \<not> heroScrollEl pg then Inr Skipped else Inr Wired)"
| "construct pg PartnerSlider =
     (if \<not> partnersTrackEl pg then Inr Skipped
      else if reducedMotion pg then Inr Static
      else Inr Wired)"
| "construct pg LazyImages = (if nativeLazyLoading pg then Inr Skipped else Inr Wired)"
| "construct pg AccessibilityHelpers = Inr Wired"
| "construct pg PerformanceMonitor = (if \<not> performanceTiming pg then Inr Skipped else Inr Wired)"

text \<open>The \<open>new\<close> expressions run in sequence; an exception leaves the sequence.\<close>

fun constructAll :: "page \<Rightarrow> component list \<Rightarrow> error + (component \<times> outcome) list" where
  "constructAll pg [] = Inr []"
| "constructAll pg (c # cs) =
     (case construct pg c of
        Inl e \<Rightarrow> Inl e
      | Inr r \<Rightarrow> (case constructAll pg cs of Inl e \<Rightarrow> Inl e | Inr rs \<Rightarrow> Inr ((c, r) # rs)))"

definition initComponents :: "page \<Rightarrow> error + (component \<times> outcome) list" where
  "initComponents pg =
     constructAll pg
       ([Navigation, SmoothScroll, FormHandler, BackToTop,
         ParallaxEffect, ScrollReveal, CardTilt, AnimatedCounters, HeroScroll, PartnerSlider,
         LazyImages, AccessibilityHelpers]
        @ (if hostname pg \<noteq> ''localhost'' \<and> hostname pg \<noteq> ''127.0.0.1''
           then [PerformanceMonitor] else []))"

section \<open>Observation-driven revealers\<close>

text \<open>
  An observed element: its identity, its \<open>data-delay\<close> (0 when absent) and the first
  \<open>[data-counter]\<close> element below it, if any. An intersection entry names its target
  and says whether it intersects.
\<close>

record element =
  eid :: nat
  delay :: nat
  counterChild :: "nat option"

record entry =
  target :: element
  isIntersecting :: bool

datatype animation = AnimateCounter nat | AnimateValue nat

text \<open>
  The classes \<open>revealed\<close> and \<open>counted\<close>, the targets each of the two observers still
  watches, the reveal callbacks waiting in \<open>setTimeout\<close> with their due times, and the
  counter animations started so far.
\<close>

record reveal_state =
  revealed :: "nat set"
  counted :: "nat set"
  srObserved :: "nat set"
  acObserved :: "nat set"
  pending :: "(nat \<times> element) list"
  now :: nat
  started :: "animation list"


definition startAnimateValue :: "nat \<Rightarrow> reveal_state \<Rightarrow> reveal_state" where
  "startAnimateValue c st =
     st\<lparr>counted := insert c (counted st), started := started st @ [AnimateValue c]\<rparr>"

text \<open>The observer callback of ScrollReveal, entry by entry, and its delayed part.\<close>

definition srEntry :: "entry \<Rightarrow> reveal_state \<Rightarrow> reveal_state" where
  "srEntry e st =
     (if isIntersecting e then
        st\<lparr>pending := pending st @ [(now st + delay (target e), target e)],
           srObserved := srObserved st - {eid (target e)}\<rparr>
      else st)"

definition srCallback :: "entry list \<Rightarrow> reveal_state \<Rightarrow> reveal_state" where
  "srCallback entries st = fold srEntry entries st"



text \<open>The observer callback of AnimatedCounters.\<close>

definition acEntry :: "entry \<Rightarrow> reveal_state \<Rightarrow> reveal_state" where
  "acEntry e st =
     (if isIntersecting e \<and> eid (target e) \<notin> counted st then
        (startAnimateValue (eid (target e)) st)\<lparr>acObserved := acObserved st - {eid (target e)}\<rparr>
      else st)"


text \<open>
  An element is settled once it bears \<open>revealed\<close> and its counter, if it has one,
  bears \<open>counted\<close>. Delivering entries means running the observer callback and
  letting the time pass until its delayed parts have run.
\<close>

definition settled :: "element \<Rightarrow> reveal_state \<Rightarrow> bool" where
  "settled el st \<longleftrightarrow>
     eid el \<in> revealed st \<and> (case counterChild el of None \<Rightarrow> True | Some c \<Rightarrow> c \<in> counted st)"


text \<open>What of the state a visitor can see.\<close>

definition visible :: "reveal_state \<Rightarrow> nat set \<times> nat set \<times> animation list" where
  "visible st = (revealed st, counted st, started st)"


section \<open>Counter animation\<close>

text \<open>
  The numbers of the source are IEEE doubles: every arithmetic result is rounded.
  The model computes in the reals and takes the rounding \<open>rnd\<close> as a parameter, so
  that exact arithmetic is the instance \<open>rnd = (\<lambda>x. x)\<close>. The target is the integer
  \<open>parseInt\<close> returned. A frame is one run of \<open>updateCounter\<close>; the result lists the
  text the element shows after each frame, and is \<open>None\<close> when the animation is still
  running after \<open>fuel\<close> frames.
\<close>

fun srFrames :: "(real \<Rightarrow> real) \<Rightarrow> int \<Rightarrow> real \<Rightarrow> nat \<Rightarrow> real \<Rightarrow> int list option" where
  "srFrames rnd tgt step 0 current = None"
| "srFrames rnd tgt step (Suc fuel) current =
     (let current = rnd (current + step)
      in if current < of_int tgt then
           map_option (\<lambda>shown. \<lfloor>current\<rfloor> # shown) (srFrames rnd tgt step fuel current)
         else Some [tgt])"

definition animateCounter :: "(real \<Rightarrow> real) \<Rightarrow> int \<Rightarrow> nat \<Rightarrow> int list option" where
  "animateCounter rnd tgt fuel =
     (let duration = 2000;
          step = rnd (of_int tgt / rnd (duration / 16));
          current = 0
      in srFrames rnd tgt step fuel current)"

fun acFrames :: "(real \<Rightarrow> real) \<Rightarrow> int \<Rightarrow> real \<Rightarrow> nat \<Rightarrow> real \<Rightarrow> int list option" where
  "acFrames rnd tgt step 0 current = None"
| "acFrames rnd tgt step (Suc fuel) current =
     (let current = min (rnd (current + step)) (of_int tgt);
          textContent = \<lfloor>current\<rfloor>
      in if current < of_int tgt then
           map_option (\<lambda>shown. textContent # shown) (acFrames rnd tgt step fuel current)
         else (let textContent = tgt in Some [textContent]))"

definition animateValue :: "(real \<Rightarrow> real) \<Rightarrow> int \<Rightarrow> nat \<Rightarrow> int list option" where
  "animateValue rnd tgt fuel =
     (let duration = 2000;
          step = rnd (of_int tgt / rnd (duration / 16));
          current = 0
      in acFrames rnd tgt step fuel current)"

text \<open>
  The standard model of rounding to a double: the relative error of a rounded
  non-negative result is at most \<open>1 / 2 ^ 53\<close>, and \<open>125 = 2000 / 16\<close> is a double.
\<close>

definition roundsLikeDouble :: "(real \<Rightarrow> real) \<Rightarrow> bool" where
  "roundsLikeDouble rnd \<longleftrightarrow> rnd 125 = 125 \<and> (\<forall>x. 0 \<le> x \<longrightarrow> \<bar>rnd x - x\<bar> \<le> x / 2 ^ 53)"

section \<open>Sample markup\<close>

text \<open>A required text-like input of the given type, holding \<open>v\<close>, alone below the element \<open>p\<close>.\<close>

definition inputOf :: "string \<Rightarrow> jsstring \<Rightarrow> nat \<Rightarrow> field" where
  "inputOf ty v p =
     \<lparr>tagName = ''INPUT'', ftype = ty, fvalue = v, required = True, defaultValue = [],
      parentElement = p, outer = []\<rparr>"

text \<open>A form at rest: no error shown, nothing focused, the feedback hidden, no timer pending.\<close>

definition formOf :: "field list \<Rightarrow> form_state" where
  "formOf flds =
     \<lparr>inputs = flds, errorClass = {}, focused = None, defaultPrevented = False,
      submitBtn = Some \<lparr>innerHTML = ''Enviar'', disabled = False\<rparr>,
      feedback = Some ''none'', successMsg = Some ''none'',
      timers = [], clock = 0, scrolls = 0\<rparr>"

text \<open>
  Three forms: one whose second control holds a malformed address and whose third is
  empty, one whose two controls share a parent, and one that is filled in correctly.
\<close>

definition sampleInvalidForm :: form_state where
  "sampleInvalidForm =
     formOf [inputOf ''text'' (js ''Ana'') 1, inputOf ''email'' (js ''not-an-email'') 2,
             inputOf ''tel'' [] 3]"

definition sharedGroupForm :: form_state where
  "sharedGroupForm = formOf [inputOf ''text'' [] 1, inputOf ''text'' (js ''Ana'') 1]"

definition sampleValidForm :: form_state where
  "sampleValidForm =
     formOf [inputOf ''text'' (js ''Ana'') 1, inputOf ''email'' (js ''a@b.co'') 2,
             inputOf ''tel'' (js ''(11) 98765-4321'') 3]"

text \<open>
  A page with all the markup, the menu closed, and the same page without \<open>.navbar\<close>.
\<close>

definition sampleNav :: nav_state where
  "sampleNav =
     \<lparr>navbarEl = True, toggleEl = True, menuEl = True, isOpen = False, menuActive = False,
      ariaExpanded = Some ''false'', bodyOverflow = '''', navbarScrolled = False\<rparr>"

definition samplePage :: page where
  "samplePage =
     \<lparr>nav = sampleNav, scrollY = 0, formEl = True, backToTopEl = True, parallaxLayers = 2,
      revealEls = 6, tiltCards = 3, counterEls = 4, heroScrollEl = True,
      partnersTrackEl = True, reducedMotion = False, touchDevice = False,
      nativeLazyLoading = True, performanceTiming = True, hostname = ''localhost''\<rparr>"

definition pageWithoutNavbar :: page where
  "pageWithoutNavbar = samplePage\<lparr>nav := sampleNav\<lparr>navbarEl := False\<rparr>\<rparr>"

text \<open>
  An address behind a no-break space, which \<open>trim\<close> removes and \<open>\s\<close> matches.
\<close>

definition nbspEmailInput :: field where
  "nbspEmailInput = inputOf ''email'' (0xA0 # js ''a@b.co'') 0"

text \<open>
  A form with one optional control, and what follows when it is submitted, the first
  callback runs, it is submitted again at once and the next callback runs.
\<close>

definition thenDo :: "error + 'a \<Rightarrow> ('a \<Rightarrow> error + 'b) \<Rightarrow> error + 'b" where
  "thenDo r f = (case r of Inl e \<Rightarrow> Inl e | Inr x \<Rightarrow> f x)"

definition optionalForm :: form_state where
  "optionalForm = formOf [(inputOf ''text'' (js ''Ana'') 1)\<lparr>required := False\<rparr>]"

definition submittedOnce :: "error + form_state" where
  "submittedOnce = thenDo (handleSubmit optionalForm) fireNext"

definition submittedTwice :: "error + form_state" where
  "submittedTwice = thenDo (thenDo submittedOnce handleSubmit) fireNext"




lemma backtrack_NoneD:
  "backtrack k lo mx = None \<Longrightarrow> lo \<le> n \<Longrightarrow> n \<le> mx \<Longrightarrow> k n = None"
proof (induction mx)
  case 0
  then show ?case by (simp split: if_splits)
next
  case (Suc m)
  from Suc.prems(2,3) have nlt: "\<not> Suc m < lo" by simp
  show ?case
  proof (cases "k (Suc m)")
    case None
    with Suc.prems(1) nlt have bt: "backtrack k lo m = None" by simp
    show ?thesis
    proof (cases "n = Suc m")
      case True
      with None show ?thesis by simp
    next
      case False
      with Suc.prems(3) have "n \<le> m" by simp
      from Suc.IH [OF bt Suc.prems(2) this] show ?thesis .
    qed
  next
    case (Some r)
    with Suc.prems(1) nlt show ?thesis by simp
  qed
qed

lemma backtrack_NoneI:
  "(\<And>n. lo \<le> n \<Longrightarrow> n \<le> mx \<Longrightarrow> k n = None) \<Longrightarrow> backtrack k lo mx = None"
proof (induction mx)
  case 0
  then show ?case by simp
next
  case (Suc m)
  have ih: "backtrack k lo m = None"
    by (rule Suc.IH) (simp add: Suc.prems)
  show ?case
  proof (cases "Suc m < lo")
    case True
    then show ?thesis by simp
  next
    case False
    then have "k (Suc m) = None" by (intro Suc.prems) simp_all
    with False ih show ?thesis by simp
  qed
qed

lemma backtrack_SomeD:
  "backtrack k lo mx = Some r \<Longrightarrow> \<exists>n. lo \<le> n \<and> n \<le> mx \<and> k n = Some r"
proof (induction mx)
  case 0
  then show ?case by (simp split: if_splits)
next
  case (Suc m)
  from Suc.prems have nlt: "\<not> Suc m < lo" by (simp split: if_splits)
  show ?case
  proof (cases "k (Suc m)")
    case None
    with Suc.prems nlt have "backtrack k lo m = Some r" by simp
    from Suc.IH [OF this] obtain n where "lo \<le> n" "n \<le> m" "k n = Some r" by blast
    then have "lo \<le> n \<and> n \<le> Suc m \<and> k n = Some r" by simp
    then show ?thesis by (rule exI)
  next
    case (Some r')
    with Suc.prems nlt have "r' = r" by simp
    with Some nlt have "lo \<le> Suc m \<and> Suc m \<le> Suc m \<and> k (Suc m) = Some r" by simp
    then show ?thesis by (rule exI)
  qed
qed


lemma take_all_iff_takeWhile:
  "n \<le> length s \<and> list_all p (take n s) \<longleftrightarrow> n \<le> length (takeWhile p s)"
proof (induction s arbitrary: n)
  case Nil
  show ?case by simp
next
  case (Cons a s)
  show ?case
  proof (cases n)
    case 0
    then show ?thesis by simp
  next
    case (Suc j)
    show ?thesis using Cons.IH [of j] by (simp add: Suc)
  qed
qed

lemma rmatch_imp_accepts: "rmatch re s \<noteq> None \<Longrightarrow> accepts re s"
proof (induction re s rule: rmatch.induct)
  case (1 s)
  show ?case by simp
next
  case (2 its s)
  then show ?case by (simp split: if_splits)
next
  case (3 p lo hi cap its s)
  define mx where "mx = (case hi of None \<Rightarrow> length (takeWhile p s)
                                 | Some h \<Rightarrow> min h (length (takeWhile p s)))"
  define k where "k = (\<lambda>n. case rmatch its (drop n s) of None \<Rightarrow> None
              | Some (caps, rest) \<Rightarrow> Some (if cap then take n s # caps else caps, rest))"
  from "3.prems" obtain r where "backtrack k lo mx = Some r"
    by (auto simp: Let_def mx_def k_def)
  from backtrack_SomeD [OF this] obtain n where n: "lo \<le> n" "n \<le> mx" "k n = Some r" by blast
  from n(3) have "rmatch its (drop n s) \<noteq> None"
    by (simp add: k_def split: option.splits)
  then have acc: "accepts its (drop n s)"
    by (rule "3.IH" [OF refl refl])
  from n(2) have tw: "n \<le> length (takeWhile p s)" and hi: "case hi of None \<Rightarrow> True | Some h \<Rightarrow> n \<le> h"
    by (simp_all add: mx_def split: option.splits)
  from tw have "n \<le> length s \<and> list_all p (take n s)"
    by (simp only: take_all_iff_takeWhile)
  with n(1) hi acc have "\<exists>n. lo \<le> n \<and> n \<le> length s \<and> (case hi of None \<Rightarrow> True | Some h \<Rightarrow> n \<le> h) \<and>
          list_all p (take n s) \<and> accepts its (drop n s)" by blast
  then show ?case by (simp only: accepts.simps)
qed


lemma accepts_imp_rmatch: "accepts re s \<Longrightarrow> rmatch re s \<noteq> None"
proof (induction re s rule: rmatch.induct)
  case (1 s)
  show ?case by simp
next
  case (2 its s)
  from "2.prems" have e: "s = []" and a: "accepts its s" by auto
  from "2.IH" [OF e a] show ?case using e by simp
next
  case (3 p lo hi cap its s)
  define mx where "mx = (case hi of None \<Rightarrow> length (takeWhile p s)
                                 | Some h \<Rightarrow> min h (length (takeWhile p s)))"
  define k where "k = (\<lambda>n. case rmatch its (drop n s) of None \<Rightarrow> None
              | Some (caps, rest) \<Rightarrow> Some (if cap then take n s # caps else caps, rest))"
  from "3.prems" obtain n where n: "lo \<le> n" "n \<le> length s"
      "case hi of None \<Rightarrow> True | Some h \<Rightarrow> n \<le> h" "list_all p (take n s)"
      "accepts its (drop n s)"
    by (simp only: accepts.simps) blast
  from n(5) have "rmatch its (drop n s) \<noteq> None" by (rule "3.IH" [OF refl refl])
  then have kn: "k n \<noteq> None" by (auto simp: k_def)
  from n(2,4) have "n \<le> length (takeWhile p s)"
    using take_all_iff_takeWhile [of n s p] by blast
  with n(3) have nmx: "n \<le> mx" by (simp add: mx_def split: option.splits)
  have "backtrack k lo mx \<noteq> None"
  proof
    assume "backtrack k lo mx = None"
    from backtrack_NoneD [OF this n(1) nmx] kn show False by simp
  qed
  then show ?case by (simp add: Let_def mx_def k_def)
qed

lemma test_iff_accepts: "test re s \<longleftrightarrow> accepts re s"
  unfolding test_def using rmatch_imp_accepts [of re s] accepts_imp_rmatch [of re s] by blast

lemma list11:
  assumes "length (d :: 'a list) = 11"
  obtains a b c e f g h i j k l where "d = [a, b, c, e, f, g, h, i, j, k, l]"
  using assms by (auto simp: numeral_eq_Suc length_Suc_conv)

lemma rmatch_full:
  assumes "length d = 11" "list_all isDigit d"
  shows "rmatch re_full d = Some ([take 2 d, take 5 (drop 2 d), drop 7 d], [])"
proof -
  from assms(1) obtain a b c e f g h i j k l where d: "d = [a, b, c, e, f, g, h, i, j, k, l]"
    by (rule list11)
  show ?thesis using assms(2) unfolding d by (simp add: re_full_def)
qed

lemma digits_value: "list_all isDigit (take n (filter isDigit raw))"
  by (auto simp: list_all_iff dest: in_set_takeD)


lemma accepts_full_length: "accepts re_full d \<Longrightarrow> 11 \<le> length d"
  by (auto simp: re_full_def)

lemma rmatch_full_short: "length d < 11 \<Longrightarrow> rmatch re_full d = None"
proof (rule ccontr)
  assume len: "length d < 11" and "rmatch re_full d \<noteq> None"
  then have "accepts re_full d" by (rule_tac rmatch_imp_accepts)
  then have "11 \<le> length d" by (rule accepts_full_length)
  with len show False by simp
qed

lemma phoneRegex_starts_paren:
  assumes "test phoneRegex (c # s)"
  shows "c = 0x28"
proof -
  from assms have "accepts phoneRegex (c # s)" by (simp only: test_iff_accepts)
  then show ?thesis by (auto simp: phoneRegex_def lit_def)
qed

lemma maskPhone_seven_to_ten:
  assumes "7 \<le> length (filter isDigit raw)" "length (filter isDigit raw) \<le> 10"
  shows "maskPhone raw = filter isDigit raw \<and> (\<forall>t. \<not> test phoneRegex (maskPhone raw @ t))"
proof -
  let ?d = "filter isDigit raw"
  have m: "maskPhone raw = ?d"
    using assms by (simp add: maskPhone_def replace_def rmatch_full_short)
  from assms(1) obtain c s where cs: "?d = c # s" by (cases ?d) auto
  then have "c \<in> set ?d" by simp
  then have "isDigit c" by simp
  then have c: "c \<noteq> 0x28" by (auto simp: isDigit_def)
  have "\<not> test phoneRegex (?d @ t)" for t
  proof
    assume "test phoneRegex (?d @ t)"
    then have "test phoneRegex (c # (s @ t))" by (simp add: cs)
    then have "c = 0x28" by (rule phoneRegex_starts_paren)
    with c show False by simp
  qed
  with m show ?thesis by simp
qed


text \<open>
  C1. With between 1 and 10 digits the masked value should be a strict prefix of the
  shape \<open>(DD) DDDDD-DDDD\<close>. With 7 to 10 digits the first pattern of \<open>maskPhone\<close>
  finds no match, since it asks for all eleven digits, and the digits are stored back
  bare: for the input \<open>1198765\<close> the value is \<open>1198765\<close>, which no continuation
  completes to the shape.
\<close>

theorem maskPhone_seven_digits_unformatted:
  "maskPhone (js ''1198765'') = js ''1198765''
   \<and> (\<forall>t. \<not> test phoneRegex (maskPhone (js ''1198765'') @ t))"
proof -
  have f: "filter isDigit (js ''1198765'') = js ''1198765''"
    by (simp add: js_def isDigit_def)
  have l: "length (js ''1198765'') = 7" by (simp add: js_def)
  have "7 \<le> length (filter isDigit (js ''1198765''))"
       "length (filter isDigit (js ''1198765'')) \<le> 10"
    by (simp_all add: f l)
  from maskPhone_seven_to_ten [OF this]
  have a: "maskPhone (js ''1198765'') = filter isDigit (js ''1198765'')"
    and b: "\<forall>t. \<not> test phoneRegex (maskPhone (js ''1198765'') @ t)"
    by blast+
  from a have "maskPhone (js ''1198765'') = js ''1198765''" by (simp only: f)
  with b show ?thesis by blast
qed

text \<open>
  C2. When the input holds eleven digits or more, \<open>maskPhone\<close> stores the first
  eleven, formatted \<open>(DD) DDDDD-DDDD\<close>, and the result passes the phone pattern of
  \<open>validateField\<close>.
\<close>

theorem maskPhone_eleven_digits:
  assumes "11 \<le> length (filter isDigit raw)"
  shows "maskPhone raw =
           (let d = take 11 (filter isDigit raw)
            in js ''('' @ take 2 d @ js '') '' @ take 5 (drop 2 d) @ js ''-'' @ drop 7 d)
         \<and> test phoneRegex (maskPhone raw)"
proof -
  define d where "d = take 11 (filter isDigit raw)"
  have len: "length d = 11" using assms by (simp add: d_def)
  have dig: "list_all isDigit d" unfolding d_def by (rule digits_value)
  have val: "(if 11 < length (filter isDigit raw) then take 11 (filter isDigit raw)
              else filter isDigit raw) = d"
    using assms by (simp add: d_def)
  have m: "maskPhone raw = js ''('' @ take 2 d @ js '') '' @ take 5 (drop 2 d) @ js ''-'' @ drop 7 d"
    unfolding maskPhone_def Let_def val
    by (simp add: len replace_def rmatch_full [OF len dig] grp_def)
  from len obtain a b c e f g h i j k l where dd: "d = [a, b, c, e, f, g, h, i, j, k, l]"
    by (rule list11)
  have "test phoneRegex (js ''('' @ take 2 d @ js '') '' @ take 5 (drop 2 d) @ js ''-'' @ drop 7 d)"
    using dig unfolding dd by (simp add: test_def phoneRegex_def lit_def js_def)
  with m show ?thesis by (simp add: d_def Let_def)
qed

text \<open>The keystrokes \<open>11987654321\<close> give \<open>(11) 98765-4321\<close>.\<close>

theorem maskPhone_eleven_digits_witness:
  "11 \<le> length (filter isDigit (js ''11987654321''))
   \<and> maskPhone (js ''11987654321'') = js ''(11) 98765-4321''
   \<and> test phoneRegex (maskPhone (js ''11987654321''))"
proof -
  have f: "filter isDigit (js ''11987654321'') = js ''11987654321''"
    by (simp add: js_def isDigit_def)
  have l: "length (js ''11987654321'') = 11" by (simp add: js_def)
  have t: "js ''('' @ take 2 (js ''11987654321'') @ js '') '' @ take 5 (drop 2 (js ''11987654321''))
             @ js ''-'' @ drop 7 (js ''11987654321'') = js ''(11) 98765-4321''"
    by (simp add: js_def)
  have h: "11 \<le> length (filter isDigit (js ''11987654321''))" by (simp add: f l)
  from maskPhone_eleven_digits [OF h]
  have a: "maskPhone (js ''11987654321'') =
             (let d = take 11 (filter isDigit (js ''11987654321''))
              in js ''('' @ take 2 d @ js '') '' @ take 5 (drop 2 d) @ js ''-'' @ drop 7 d)"
    and b: "test phoneRegex (maskPhone (js ''11987654321''))"
    by blast+
  have "take 11 (filter isDigit (js ''11987654321'')) = js ''11987654321''"
    by (simp add: f l)
  with a have "maskPhone (js ''11987654321'') = js ''(11) 98765-4321''"
    by (simp only: Let_def t)
  with h b show ?thesis by blast
qed

lemma accepts_lit:
  "accepts (lit c # its) s \<longleftrightarrow> (\<exists>s'. s = of_char c # s' \<and> accepts its s')"
proof
  assume "accepts (lit c # its) s"
  then obtain n where n: "1 \<le> n" "n \<le> length s" "n \<le> 1" "list_all (\<lambda>x. x = of_char c) (take n s)"
    "accepts its (drop n s)" by (auto simp: lit_def)
  then have n1: "n = 1" by simp
  with n(2) obtain a s' where s: "s = a # s'" by (cases s) auto
  with n n1 show "\<exists>s'. s = of_char c # s' \<and> accepts its s'" by simp
next
  assume "\<exists>s'. s = of_char c # s' \<and> accepts its s'"
  then obtain s' where "s = of_char c # s'" "accepts its s'" by blast
  then show "accepts (lit c # its) s"
    by (simp add: lit_def) (rule exI [of _ 1], simp)
qed

lemma accepts_plus:
  "accepts (Rep p 1 None cap # its) s \<longleftrightarrow>
     (\<exists>u w. s = u @ w \<and> u \<noteq> [] \<and> list_all p u \<and> accepts its w)"
proof
  assume "accepts (Rep p 1 None cap # its) s"
  then obtain n where n: "1 \<le> n" "n \<le> length s" "list_all p (take n s)" "accepts its (drop n s)"
    by auto
  have "s = take n s @ drop n s" by simp
  moreover have "take n s \<noteq> []" using n(1,2) by auto
  ultimately show "\<exists>u w. s = u @ w \<and> u \<noteq> [] \<and> list_all p u \<and> accepts its w"
    using n(3,4) by blast
next
  assume "\<exists>u w. s = u @ w \<and> u \<noteq> [] \<and> list_all p u \<and> accepts its w"
  then obtain u w where uw: "s = u @ w" "u \<noteq> []" "list_all p u" "accepts its w" by blast
  then have "1 \<le> length u" by (cases u) auto
  with uw show "accepts (Rep p 1 None cap # its) s"
    by (simp del: list_all_append) (rule exI [of _ "length u"], simp)
qed

lemma emailRegex_iff_shape: "test emailRegex v \<longleftrightarrow> emailShape v"
proof -
  have "test emailRegex v \<longleftrightarrow> accepts emailRegex v"
    by (rule test_iff_accepts)
  also have "\<dots> \<longleftrightarrow> emailShape v"
  proof
    assume "accepts emailRegex v"
    then show "emailShape v"
      unfolding emailRegex_def emailShape_def accepts_plus accepts_lit
      by (auto simp: js_def)
  next
    assume "emailShape v"
    then obtain l d t where v: "v = l @ js ''@'' @ d @ js ''.'' @ t"
      and ne: "l \<noteq> []" "d \<noteq> []" "t \<noteq> []"
      and cl: "list_all notSpaceAt l" "list_all notSpaceAt d" "list_all notSpaceAt t"
      unfolding emailShape_def by blast
    have 1: "accepts [Rep notSpaceAt 1 None False, Eos] t"
      unfolding accepts_plus using ne(3) cl(3) by (intro exI [of _ t] exI [of _ "[]"]) simp
    have 2: "accepts [lit CHR ''.'', Rep notSpaceAt 1 None False, Eos] (js ''.'' @ t)"
      unfolding accepts_lit using 1 by (simp add: js_def)
    have 3: "accepts [Rep notSpaceAt 1 None False, lit CHR ''.'', Rep notSpaceAt 1 None False, Eos]
               (d @ js ''.'' @ t)"
      unfolding accepts_plus [of notSpaceAt False "[lit CHR ''.'', Rep notSpaceAt 1 None False, Eos]"]
      using ne(2) cl(2) 2 by blast
    have 4: "accepts [lit CHR ''@'', Rep notSpaceAt 1 None False, lit CHR ''.'',
                      Rep notSpaceAt 1 None False, Eos] (js ''@'' @ d @ js ''.'' @ t)"
      unfolding accepts_lit [of "CHR ''@''"] using 3 by (simp add: js_def)
    show "accepts emailRegex v"
      unfolding emailRegex_def v
        accepts_plus [of notSpaceAt False "[lit CHR ''@'', Rep notSpaceAt 1 None False, lit CHR ''.'',
                      Rep notSpaceAt 1 None False, Eos]"]
      using ne(1) cl(1) 4 by blast
  qed
  finally show ?thesis .
qed



lemma validateField_fst_email:
  assumes "ftype fld = ''email''" "tagName fld \<noteq> ''SELECT''" "trim (fvalue fld) \<noteq> []"
  shows "fst (validateField fld st) = test emailRegex (trim (fvalue fld))"
  using assms by (simp add: validateField_def Let_def)

lemma validateField_errorClass:
  "errorClass (snd (validateField fld st)) =
     (if fst (validateField fld st) then errorClass st - {parentElement fld}
      else insert (parentElement fld) (errorClass st))"
  by (simp add: validateField_def Let_def)

lemma trim_decomposes:
  "\<exists>pre post. s = pre @ trim s @ post \<and> list_all isSpace pre \<and> list_all isSpace post"
proof -
  define u where "u = dropWhile isSpace s"
  have 1: "s = takeWhile isSpace s @ u" by (simp add: u_def)
  have "u = rev (takeWhile isSpace (rev u) @ dropWhile isSpace (rev u))"
    by (simp only: takeWhile_dropWhile_id rev_rev_ident)
  also have "\<dots> = rev (dropWhile isSpace (rev u)) @ rev (takeWhile isSpace (rev u))"
    by (rule rev_append)
  also have "rev (dropWhile isSpace (rev u)) = trim s"
    by (simp only: trim_def u_def)
  finally have 2: "u = trim s @ rev (takeWhile isSpace (rev u))" .
  have 3: "list_all isSpace (takeWhile isSpace s)"
    by (simp add: list_all_iff) (meson set_takeWhileD)
  have 4: "list_all isSpace (rev (takeWhile isSpace (rev u)))"
    by (simp add: list_all_iff) (meson set_takeWhileD)
  from 1 2 have "s = takeWhile isSpace s @ trim s @ rev (takeWhile isSpace (rev u))" by simp
  with 3 4 show ?thesis by blast
qed

lemma trim_ends:
  assumes "trim s \<noteq> []"
  shows "\<not> isSpace (hd (trim s)) \<and> \<not> isSpace (last (trim s))"
proof -
  define u where "u = dropWhile isSpace s"
  define w where "w = dropWhile isSpace (rev u)"
  have t: "trim s = rev w" by (simp add: trim_def u_def w_def)
  with assms have w: "w \<noteq> []" by simp
  then have hw: "\<not> isSpace (hd w)" unfolding w_def by (rule hd_dropWhile)
  from w have ru: "rev u \<noteq> []" by (auto simp: w_def)
  then have u: "u \<noteq> []" by simp
  then have hu: "\<not> isSpace (hd u)" unfolding u_def by (rule hd_dropWhile)
  have "rev u = takeWhile isSpace (rev u) @ w" by (simp add: w_def)
  then have "last (rev u) = last (takeWhile isSpace (rev u) @ w)" by (rule arg_cong)
  with w have "last (rev u) = last w" by simp
  with u have lw: "last w = hd u" by (simp add: last_rev)
  from w have "last (trim s) = hd w" "hd (trim s) = last w"
    by (simp_all add: t last_rev hd_rev)
  with hw hu lw show ?thesis by simp
qed

lemma validateField_fst_email_general:
  assumes "ftype fld = ''email''" "tagName fld \<noteq> ''SELECT''"
  shows "fst (validateField fld st) =
           (if trim (fvalue fld) = [] then \<not> required fld
            else test emailRegex (trim (fvalue fld)))"
  using assms by (simp add: validateField_def Let_def)

text \<open>
  C8, as amended. \<open>validateField\<close> tests the value with the white space at both
  ends removed. For a control of type \<open>email\<close>: when that trimmed value is not empty,
  the control is marked valid exactly when it has the shape \<open>local@domain.tld\<close>;
  when it is empty, exactly when the control is not required. An invalid control is
  marked by the error class on its parent.
\<close>

theorem validateField_email:
  assumes "ftype fld = ''email''" "tagName fld \<noteq> ''SELECT''"
  shows "(\<exists>pre post. fvalue fld = pre @ trim (fvalue fld) @ post \<and>
                     list_all isSpace pre \<and> list_all isSpace post)
       \<and> (trim (fvalue fld) \<noteq> [] \<longrightarrow>
            \<not> isSpace (hd (trim (fvalue fld))) \<and> \<not> isSpace (last (trim (fvalue fld))))
       \<and> fst (validateField fld st) =
            (if trim (fvalue fld) = [] then \<not> required fld
             else emailShape (trim (fvalue fld)))
       \<and> (parentElement fld \<in> errorClass (snd (validateField fld st)))
            = (\<not> fst (validateField fld st))"
proof -
  have 1: "\<exists>pre post. fvalue fld = pre @ trim (fvalue fld) @ post \<and>
                     list_all isSpace pre \<and> list_all isSpace post"
    by (rule trim_decomposes)
  have 2: "trim (fvalue fld) \<noteq> [] \<longrightarrow>
            \<not> isSpace (hd (trim (fvalue fld))) \<and> \<not> isSpace (last (trim (fvalue fld)))"
    using trim_ends [of "fvalue fld"] by blast
  have 3: "fst (validateField fld st) =
            (if trim (fvalue fld) = [] then \<not> required fld
             else emailShape (trim (fvalue fld)))"
    using validateField_fst_email_general [OF assms, of st]
    by (simp add: emailRegex_iff_shape)
  have 4: "(parentElement fld \<in> errorClass (snd (validateField fld st)))
            = (\<not> fst (validateField fld st))"
    using validateField_errorClass [of fld st] by simp
  from 1 2 3 4 show ?thesis by blast
qed

lemma trim_a_b_co: "trim (js ''a@b.co'') = js ''a@b.co''"
  by (simp add: trim_def js_def isSpace_def)

lemma trim_not_an_email: "trim (js ''not-an-email'') = js ''not-an-email''"
  by (simp add: trim_def js_def isSpace_def)

lemma test_a_b_co: "test emailRegex (js ''a@b.co'')"
  by (simp add: test_def emailRegex_def lit_def js_def notSpaceAt_def isSpace_def)

lemma test_not_an_email: "\<not> test emailRegex (js ''not-an-email'')"
  by (simp add: test_def emailRegex_def lit_def js_def notSpaceAt_def isSpace_def)

text \<open>\<open>a@b.co\<close> is marked valid and \<open>not-an-email\<close> invalid.\<close>

theorem validateField_email_witness:
  "ftype (inputOf ''email'' (js ''a@b.co'') 0) = ''email''
   \<and> tagName (inputOf ''email'' (js ''a@b.co'') 0) \<noteq> ''SELECT''
   \<and> trim (js ''a@b.co'') = js ''a@b.co''
   \<and> fst (validateField (inputOf ''email'' (js ''a@b.co'') 0) (formOf []))
   \<and> emailShape (js ''a@b.co'')
   \<and> parentElement (inputOf ''email'' (js ''a@b.co'') 0)
        \<notin> errorClass (snd (validateField (inputOf ''email'' (js ''a@b.co'') 0) (formOf [])))
   \<and> trim (js ''not-an-email'') = js ''not-an-email''
   \<and> \<not> fst (validateField (inputOf ''email'' (js ''not-an-email'') 0) (formOf []))
   \<and> \<not> emailShape (js ''not-an-email'')
   \<and> parentElement (inputOf ''email'' (js ''not-an-email'') 0)
        \<in> errorClass (snd (validateField (inputOf ''email'' (js ''not-an-email'') 0) (formOf [])))"
proof -
  have a: "trim (fvalue (inputOf ''email'' (js ''a@b.co'') 0)) = js ''a@b.co''"
    by (simp add: inputOf_def trim_a_b_co)
  have b: "trim (fvalue (inputOf ''email'' (js ''not-an-email'') 0)) = js ''not-an-email''"
    by (simp add: inputOf_def trim_not_an_email)
  have ne: "js ''a@b.co'' \<noteq> []" "js ''not-an-email'' \<noteq> []" by (simp_all add: js_def)
  have ty: "ftype (inputOf ''email'' v 0) = ''email''"
    "tagName (inputOf ''email'' v 0) \<noteq> ''SELECT''" for v
    by (simp_all add: inputOf_def)
  have sa: "emailShape (js ''a@b.co'')"
    using test_a_b_co emailRegex_iff_shape [of "js ''a@b.co''"] by blast
  have sb: "\<not> emailShape (js ''not-an-email'')"
    using test_not_an_email emailRegex_iff_shape [of "js ''not-an-email''"] by blast
  from validateField_email [OF ty, of "js ''a@b.co''" "formOf []"]
  have va: "fst (validateField (inputOf ''email'' (js ''a@b.co'') 0) (formOf []))"
    and ea: "parentElement (inputOf ''email'' (js ''a@b.co'') 0)
        \<notin> errorClass (snd (validateField (inputOf ''email'' (js ''a@b.co'') 0) (formOf [])))"
    unfolding a using ne(1) sa by simp_all
  from validateField_email [OF ty, of "js ''not-an-email''" "formOf []"]
  have vb: "\<not> fst (validateField (inputOf ''email'' (js ''not-an-email'') 0) (formOf []))"
    and eb: "parentElement (inputOf ''email'' (js ''not-an-email'') 0)
        \<in> errorClass (snd (validateField (inputOf ''email'' (js ''not-an-email'') 0) (formOf [])))"
    unfolding b using ne(2) sb by simp_all
  from ty [of "js ''a@b.co''"] trim_a_b_co trim_not_an_email va ea vb eb sa sb
  show ?thesis by blast
qed

text \<open>
  The claim as stated, about the value of the field itself, fails: a no-break space
  before \<open>a@b.co\<close> is white space, so the value has not the shape, yet the control is
  marked valid.
\<close>

theorem validateField_email_untrimmed_counterexample:
  "ftype nbspEmailInput = ''email'' \<and> fvalue nbspEmailInput \<noteq> []
   \<and> fst (validateField nbspEmailInput (formOf []))
   \<and> \<not> emailShape (fvalue nbspEmailInput)"
proof -
  have v: "fvalue nbspEmailInput = 0xA0 # js ''a@b.co''"
    and ty: "ftype nbspEmailInput = ''email''" "tagName nbspEmailInput \<noteq> ''SELECT''"
    by (simp_all add: nbspEmailInput_def inputOf_def)
  have tr: "trim (fvalue nbspEmailInput) = js ''a@b.co''"
    unfolding v by (simp add: trim_def js_def isSpace_def)
  have ne: "js ''a@b.co'' \<noteq> []" by (simp add: js_def)
  have valid: "fst (validateField nbspEmailInput (formOf []))"
    using validateField_fst_email_general [OF ty, of "formOf []"] test_a_b_co ne
    by (simp add: tr)
  have "\<not> test emailRegex (0xA0 # js ''a@b.co'')"
    by (simp add: test_def emailRegex_def lit_def js_def notSpaceAt_def isSpace_def)
  then have "\<not> emailShape (fvalue nbspEmailInput)"
    unfolding v using emailRegex_iff_shape [of "0xA0 # js ''a@b.co''"] by blast
  with ty(1) v valid show ?thesis by simp
qed

lemma validateField_fst_indep:
  "fst (validateField fld st) = fst (validateField fld st')"
  by (simp add: validateField_def Let_def)

lemma validateField_snd:
  "snd (validateField fld st) =
     st\<lparr>errorClass := (if fst (validateField fld st) then errorClass st - {parentElement fld}
                        else insert (parentElement fld) (errorClass st))\<rparr>"
  by (simp add: validateField_def Let_def)

lemma validateAll_fst:
  "fst (validateAll flds b st) = (b \<and> list_all (\<lambda>fld. fst (validateField fld st0)) flds)"
proof (induction flds arbitrary: b st)
  case Nil
  show ?case by simp
next
  case (Cons fld flds)
  obtain ok st' where v: "validateField fld st = (ok, st')" by (cases "validateField fld st")
  then have ok: "ok = fst (validateField fld st0)"
    using validateField_fst_indep [of fld st st0] by simp
  show ?case using Cons.IH [of "if \<not> ok then False else b" st'] by (auto simp: v ok)
qed

lemma validateAll_snd:
  "\<exists>E. snd (validateAll flds b st) = st\<lparr>errorClass := E\<rparr> \<and>
       (distinct (map parentElement flds) \<longrightarrow>
          (\<forall>p. p \<in> E \<longleftrightarrow>
             (if p \<in> parentElement ` set flds
              then \<exists>fld \<in> set flds. parentElement fld = p \<and> \<not> fst (validateField fld st0)
              else p \<in> errorClass st)))"
proof (induction flds arbitrary: b st)
  case Nil
  show ?case by (rule exI [of _ "errorClass st"]) simp
next
  case (Cons fld flds)
  define ok where "ok = fst (validateField fld st0)"
  define E1 where "E1 = (if ok then errorClass st - {parentElement fld}
                         else insert (parentElement fld) (errorClass st))"
  have v: "validateField fld st = (ok, st\<lparr>errorClass := E1\<rparr>)"
    using validateField_snd [of fld st] validateField_fst_indep [of fld st st0]
    by (simp add: prod_eq_iff ok_def E1_def)
  from Cons.IH [of "if \<not> ok then False else b" "st\<lparr>errorClass := E1\<rparr>"]
  obtain E where E: "snd (validateAll flds (if \<not> ok then False else b) (st\<lparr>errorClass := E1\<rparr>))
                       = st\<lparr>errorClass := E\<rparr>"
    and Ed: "distinct (map parentElement flds) \<Longrightarrow>
          p \<in> E \<longleftrightarrow>
             (if p \<in> parentElement ` set flds
              then \<exists>fld \<in> set flds. parentElement fld = p \<and> \<not> fst (validateField fld st0)
              else p \<in> E1)" for p
    by auto
  have 1: "snd (validateAll (fld # flds) b st) = st\<lparr>errorClass := E\<rparr>"
    by (simp add: v E)
  have 2: "p \<in> E \<longleftrightarrow>
             (if p \<in> parentElement ` set (fld # flds)
              then \<exists>f \<in> set (fld # flds). parentElement f = p \<and> \<not> fst (validateField f st0)
              else p \<in> errorClass st)"
    if d: "distinct (map parentElement (fld # flds))" for p
  proof -
    from d have d': "distinct (map parentElement flds)"
      and nin: "parentElement fld \<notin> parentElement ` set flds" by simp_all
    show ?thesis
    proof (cases "p = parentElement fld")
      case True
      with nin have "p \<in> E \<longleftrightarrow> p \<in> E1" using Ed [OF d', of p] by simp
      also have "\<dots> \<longleftrightarrow> \<not> ok" using True by (simp add: E1_def)
      finally have pe: "p \<in> E \<longleftrightarrow> \<not> ok" .
      have nf: "parentElement f \<noteq> parentElement fld" if "f \<in> set flds" for f
      proof
        assume e: "parentElement f = parentElement fld"
        from that have "parentElement f \<in> parentElement ` set flds" by (rule imageI)
        with e nin show False by simp
      qed
      show ?thesis using True pe nf by (auto simp: ok_def)
    next
      case False
      then have "p \<in> E1 \<longleftrightarrow> p \<in> errorClass st" by (simp add: E1_def)
      then show ?thesis using Ed [OF d', of p] False by auto
    qed
  qed
  from 1 2 show ?case by blast
qed

lemma findIndex_cong:
  "(\<And>x. x \<in> set xs \<Longrightarrow> P x = Q x) \<Longrightarrow> findIndex P xs = findIndex Q xs"
  by (induction xs) simp_all

lemma findIndex_None: "findIndex P xs = None \<longleftrightarrow> (\<forall>x \<in> set xs. \<not> P x)"
  by (induction xs) simp_all

lemma findIndex_Some:
  "findIndex P xs = Some i \<Longrightarrow> i < length xs \<and> P (xs ! i) \<and> (\<forall>j < i. \<not> P (xs ! j))"
proof (induction xs arbitrary: i)
  case Nil
  then show ?case by simp
next
  case (Cons x xs)
  show ?case
  proof (cases "P x")
    case True
    with Cons.prems show ?thesis by simp
  next
    case False
    with Cons.prems obtain i' where i': "findIndex P xs = Some i'" "i = Suc i'" by auto
    from Cons.IH [OF i'(1)] have ih: "i' < length xs" "P (xs ! i')" "\<forall>j < i'. \<not> P (xs ! j)"
      by simp_all
    have "\<not> P ((x # xs) ! j)" if "j < i" for j
    proof (cases j)
      case 0
      with False show ?thesis by simp
    next
      case (Suc j')
      with that i'(2) have "j' < i'" by simp
      with ih(3) Suc show ?thesis by simp
    qed
    with ih i'(2) show ?thesis by simp
  qed
qed

lemma validateForm_result:
  "\<exists>E. validateForm st =
         (list_all (\<lambda>fld. fst (validateField fld st0)) (inputs st), st\<lparr>errorClass := E\<rparr>) \<and>
       (distinct (map parentElement (inputs st)) \<longrightarrow>
          (\<forall>p. p \<in> E \<longleftrightarrow>
             (if p \<in> parentElement ` set (inputs st)
              then \<exists>fld \<in> set (inputs st). parentElement fld = p \<and> \<not> fst (validateField fld st0)
              else p \<in> errorClass st)))"
proof -
  from validateAll_snd [of "inputs st" True st st0] obtain E where
    E: "snd (validateAll (inputs st) True st) = st\<lparr>errorClass := E\<rparr>"
    and Ed: "distinct (map parentElement (inputs st)) \<longrightarrow>
          (\<forall>p. p \<in> E \<longleftrightarrow>
             (if p \<in> parentElement ` set (inputs st)
              then \<exists>fld \<in> set (inputs st). parentElement fld = p \<and> \<not> fst (validateField fld st0)
              else p \<in> errorClass st))"
    by blast
  have "validateForm st =
         (list_all (\<lambda>fld. fst (validateField fld st0)) (inputs st), st\<lparr>errorClass := E\<rparr>)"
    using validateAll_fst [of "inputs st" True st st0] E
    by (simp add: validateForm_def prod_eq_iff)
  with Ed show ?thesis by blast
qed

text \<open>
  C4, as amended. When some control fails validation, \<open>handleSubmit\<close> prevents the
  default action and returns before the submitting path: the button, the feedback, the
  values and the timers are untouched. Focus moves to the first invalid control when
  every control is the only one below its parent and no further ancestor bears or
  receives the error class.
\<close>

theorem handleSubmit_invalid_cancels:
  assumes inv: "\<exists>fld \<in> set (inputs st). \<not> fst (validateField fld st)"
  shows "\<exists>st'. handleSubmit st = Inr st' \<and> defaultPrevented st' \<and>
           submitBtn st' = submitBtn st \<and> timers st' = timers st \<and>
           feedback st' = feedback st \<and> successMsg st' = successMsg st \<and>
           inputs st' = inputs st \<and> scrolls st' = scrolls st \<and> clock st' = clock st \<and>
           (distinct (map parentElement (inputs st)) \<and>
            (\<forall>fld \<in> set (inputs st). \<forall>a \<in> set (outer fld).
                a \<notin> errorClass st \<and> a \<notin> parentElement ` set (inputs st))
            \<longrightarrow> (\<exists>i. focused st' = Some i \<and> i < length (inputs st) \<and>
                     \<not> fst (validateField (inputs st ! i) st) \<and>
                     (\<forall>j < i. fst (validateField (inputs st ! j) st))))"
proof -
  define st1 where "st1 = st\<lparr>defaultPrevented := True\<rparr>"
  define V where "V = (\<lambda>fld. fst (validateField fld st))"
  have in1: "inputs st1 = inputs st" and ec1: "errorClass st1 = errorClass st"
    by (simp_all add: st1_def)
  from validateForm_result [of st1 st] obtain E where
    vf: "validateForm st1 = (list_all V (inputs st), st1\<lparr>errorClass := E\<rparr>)"
    and Ed: "distinct (map parentElement (inputs st)) \<Longrightarrow>
          p \<in> E \<longleftrightarrow>
             (if p \<in> parentElement ` set (inputs st)
              then \<exists>fld \<in> set (inputs st). parentElement fld = p \<and> \<not> V fld
              else p \<in> errorClass st)" for p
    unfolding in1 ec1 V_def by blast
  define st2 where "st2 = st1\<lparr>errorClass := E\<rparr>"
  from inv have nall: "\<not> list_all V (inputs st)" by (auto simp: list_all_iff V_def)
  have hs: "handleSubmit st =
              (case firstError st2 of Some i \<Rightarrow> Inr (st2\<lparr>focused := Some i\<rparr>) | None \<Rightarrow> Inr st2)"
    unfolding st2_def using vf nall by (simp add: handleSubmit_def Let_def st1_def [symmetric])
  define st' where "st' = (case firstError st2 of Some i \<Rightarrow> st2\<lparr>focused := Some i\<rparr> | None \<Rightarrow> st2)"
  have r: "handleSubmit st = Inr st'"
    by (simp add: hs st'_def split: option.splits)
  have same: "defaultPrevented st'" "submitBtn st' = submitBtn st" "timers st' = timers st"
    "feedback st' = feedback st" "successMsg st' = successMsg st"
    "inputs st' = inputs st" "scrolls st' = scrolls st" "clock st' = clock st"
    by (simp_all add: st'_def st2_def st1_def split: option.splits)
  have foc: "\<exists>i. focused st' = Some i \<and> i < length (inputs st) \<and>
                     \<not> V (inputs st ! i) \<and> (\<forall>j < i. V (inputs st ! j))"
    if d: "distinct (map parentElement (inputs st))"
    and o: "\<forall>fld \<in> set (inputs st). \<forall>a \<in> set (outer fld).
                a \<notin> errorClass st \<and> a \<notin> parentElement ` set (inputs st)"
  proof -
    from d have inj: "inj_on parentElement (set (inputs st))" by (simp add: distinct_map)
    have par: "parentElement fld \<in> E \<longleftrightarrow> \<not> V fld" if m: "fld \<in> set (inputs st)" for fld
    proof -
      from m have pin: "parentElement fld \<in> parentElement ` set (inputs st)" by (rule imageI)
      have "parentElement fld \<in> E \<longleftrightarrow>
              (\<exists>f \<in> set (inputs st). parentElement f = parentElement fld \<and> \<not> V f)"
        using Ed [OF d, of "parentElement fld"] pin by simp
      also have "\<dots> \<longleftrightarrow> \<not> V fld"
      proof
        assume "\<exists>f \<in> set (inputs st). parentElement f = parentElement fld \<and> \<not> V f"
        then obtain f where f: "f \<in> set (inputs st)" "parentElement f = parentElement fld" "\<not> V f"
          by blast
        from inj f(2) f(1) m have "f = fld" by (rule inj_onD)
        with f(3) show "\<not> V fld" by simp
      next
        assume "\<not> V fld"
        with m show "\<exists>f \<in> set (inputs st). parentElement f = parentElement fld \<and> \<not> V f"
          by blast
      qed
      finally show ?thesis .
    qed
    have out: "a \<notin> E" if m: "fld \<in> set (inputs st)" and a: "a \<in> set (outer fld)" for fld a
    proof -
      from o m a have "a \<notin> errorClass st" "a \<notin> parentElement ` set (inputs st)" by blast+
      then show ?thesis using Ed [OF d, of a] by simp
    qed
    have sel: "list_ex (\<lambda>a. a \<in> errorClass st2) (parentElement fld # outer fld) \<longleftrightarrow> \<not> V fld"
      if m: "fld \<in> set (inputs st)" for fld
      using par [OF m] out [OF m] by (auto simp: st2_def list_ex_iff)
    have in2: "inputs st2 = inputs st" by (simp add: st2_def st1_def)
    have fe: "firstError st2 = findIndex (\<lambda>fld. \<not> V fld) (inputs st)"
      unfolding firstError_def in2 by (rule findIndex_cong) (rule sel)
    from inv have "findIndex (\<lambda>fld. \<not> V fld) (inputs st) \<noteq> None"
      by (simp add: findIndex_None V_def)
    then obtain i where i: "findIndex (\<lambda>fld. \<not> V fld) (inputs st) = Some i" by blast
    from findIndex_Some [OF i] have "i < length (inputs st)" "\<not> V (inputs st ! i)"
      "\<forall>j < i. V (inputs st ! j)" by simp_all
    moreover have "focused st' = Some i" by (simp add: st'_def fe i)
    ultimately show ?thesis by blast
  qed
  from r same foc show ?thesis unfolding V_def by blast
qed


lemma valid_text_Ana: "fst (validateField (inputOf ''text'' (js ''Ana'') p) st)"
  by (simp add: validateField_def inputOf_def Let_def trim_def js_def isSpace_def)

lemma invalid_empty: "\<not> fst (validateField (inputOf ty [] p) st)"
  by (simp add: validateField_def inputOf_def Let_def trim_def)

lemma invalid_not_an_email:
  "\<not> fst (validateField (inputOf ''email'' (js ''not-an-email'') p) st)"
proof -
  have "trim (fvalue (inputOf ''email'' (js ''not-an-email'') p)) = js ''not-an-email''"
    by (simp add: inputOf_def trim_not_an_email)
  moreover have "js ''not-an-email'' \<noteq> []" by (simp add: js_def)
  ultimately have tr: "trim (fvalue (inputOf ''email'' (js ''not-an-email'') p)) \<noteq> []"
    and tv: "\<not> test emailRegex (trim (fvalue (inputOf ''email'' (js ''not-an-email'') p)))"
    by (simp_all add: test_not_an_email)
  have ty: "ftype (inputOf ''email'' (js ''not-an-email'') p) = ''email''"
    and tg: "tagName (inputOf ''email'' (js ''not-an-email'') p) \<noteq> ''SELECT''"
    by (simp_all add: inputOf_def)
  from validateField_fst_email [OF ty tg tr, of st] tv show ?thesis by simp
qed

text \<open>
  On the sample form the second control is the first invalid one, and it receives
  the focus.
\<close>

theorem handleSubmit_invalid_cancels_witness:
  "(\<exists>fld \<in> set (inputs sampleInvalidForm). \<not> fst (validateField fld sampleInvalidForm))
   \<and> distinct (map parentElement (inputs sampleInvalidForm))
   \<and> list_all (\<lambda>fld. list_all (\<lambda>a. a \<notin> errorClass sampleInvalidForm \<and>
                                        a \<notin> parentElement ` set (inputs sampleInvalidForm))
                             (outer fld))
         (inputs sampleInvalidForm)
   \<and> (\<exists>st'. handleSubmit sampleInvalidForm = Inr st' \<and> focused st' = Some 1 \<and>
          submitBtn st' = submitBtn sampleInvalidForm \<and> timers st' = [])"
proof -
  let ?st = sampleInvalidForm
  have inp: "inputs ?st = [inputOf ''text'' (js ''Ana'') 1, inputOf ''email'' (js ''not-an-email'') 2,
             inputOf ''tel'' [] 3]"
    by (simp add: sampleInvalidForm_def formOf_def)
  have h1: "\<exists>fld \<in> set (inputs ?st). \<not> fst (validateField fld ?st)"
    unfolding inp using invalid_empty [of "''tel''" 3 ?st] by simp
  have h2: "distinct (map parentElement (inputs ?st))"
    unfolding inp by (simp add: inputOf_def)
  have h3: "\<forall>fld \<in> set (inputs ?st). \<forall>a \<in> set (outer fld).
          a \<notin> errorClass ?st \<and> a \<notin> parentElement ` set (inputs ?st)"
    unfolding inp by (simp add: inputOf_def)
  from handleSubmit_invalid_cancels [OF h1] h2 h3 obtain st' i where
    r: "handleSubmit ?st = Inr st'" "submitBtn st' = submitBtn ?st" "timers st' = timers ?st"
    and i: "focused st' = Some i" "i < length (inputs ?st)"
      "\<not> fst (validateField (inputs ?st ! i) ?st)"
      "\<forall>j < i. fst (validateField (inputs ?st ! j) ?st)"
    by blast
  have v0: "fst (validateField (inputs ?st ! 0) ?st)"
    unfolding inp by (simp add: valid_text_Ana)
  have v1: "\<not> fst (validateField (inputs ?st ! 1) ?st)"
    unfolding inp by (simp add: invalid_not_an_email)
  have "i = 1"
  proof (rule ccontr)
    assume ne: "i \<noteq> 1"
    show False
    proof (cases "i = 0")
      case True
      with i(3) v0 show False by simp
    next
      case False
      with ne have "1 < i" by simp
      with i(4) v1 show False by blast
    qed
  qed
  with i(1) have "focused st' = Some 1" by simp
  moreover have "timers ?st = []" by (simp add: sampleInvalidForm_def formOf_def)
  moreover have "list_all (\<lambda>fld. list_all (\<lambda>a. a \<notin> errorClass ?st \<and>
                                        a \<notin> parentElement ` set (inputs ?st)) (outer fld))
         (inputs ?st)"
    using h3 by (simp add: list_all_iff)
  ultimately show ?thesis using r h1 h2 by auto
qed

text \<open>
  The claim as stated fails when two controls share a parent: the first is empty and
  required, the second is valid and clears the error class again, so the selector
  finds nothing and no control is focused.
\<close>

theorem handleSubmit_shared_group_no_focus:
  "\<not> fst (validateField (inputs sharedGroupForm ! 0) sharedGroupForm)
   \<and> map_sum id focused (handleSubmit sharedGroupForm) = Inr None"
proof -
  have inp: "inputs sharedGroupForm = [inputOf ''text'' [] 1, inputOf ''text'' (js ''Ana'') 1]"
    by (simp add: sharedGroupForm_def formOf_def)
  have a: "\<not> fst (validateField (inputs sharedGroupForm ! 0) sharedGroupForm)"
    unfolding inp by (simp add: invalid_empty)
  have v1: "validateField (inputOf ''text'' [] p) st = (False, st\<lparr>errorClass := insert p (errorClass st)\<rparr>)" for st p
    by (simp add: validateField_def inputOf_def Let_def trim_def)
  have v2: "validateField (inputOf ''text'' (js ''Ana'') p) st = (True, st\<lparr>errorClass := errorClass st - {p}\<rparr>)" for st p
    by (simp add: validateField_def inputOf_def Let_def trim_def js_def isSpace_def)
  have vf: "validateForm (sharedGroupForm\<lparr>defaultPrevented := True\<rparr>)
              = (False, sharedGroupForm\<lparr>defaultPrevented := True, errorClass := {}\<rparr>)"
    by (simp add: validateForm_def inp v1 v2) (simp add: sharedGroupForm_def formOf_def)
  have fe: "firstError (sharedGroupForm\<lparr>defaultPrevented := True, errorClass := {}\<rparr>) = None"
    by (simp add: firstError_def inp inputOf_def)
  have "handleSubmit sharedGroupForm = Inr (sharedGroupForm\<lparr>defaultPrevented := True, errorClass := {}\<rparr>)"
    by (simp add: handleSubmit_def Let_def vf fe)
  then have "map_sum id focused (handleSubmit sharedGroupForm) = Inr None"
    by (simp add: sharedGroupForm_def formOf_def)
  with a show ?thesis by simp
qed

lemma earliest_single: "earliest [t] = Some t"
  by simp

text \<open>
  C9, as amended. When every control validates and the submit button and the two
  feedback elements exist, \<open>handleSubmit\<close> prevents the browser's own submission,
  disables the button, replaces its label and registers one callback due 2000 ms
  later. Whenever that callback runs it resets the values, shows the feedback, restores
  the button and registers one callback due 5000 ms later; whenever that one runs it
  hides the feedback. When no callback is pending at the submission, the event loop
  runs exactly these two, 2000 ms and 7000 ms after the submission. The handler
  has no effect besides these, and the default action stays prevented, so nothing is
  transmitted.
\<close>

theorem handleSubmit_valid_simulates_submission:
  assumes ok: "\<forall>fld \<in> set (inputs st). fst (validateField fld st)"
    and btn: "submitBtn st = Some b"
    and fb: "feedback st = Some fd" "successMsg st = Some sm"
  shows "\<exists>s1.
           handleSubmit st = Inr s1 \<and> defaultPrevented s1 \<and>
           submitBtn s1 = Some \<lparr>innerHTML = ''<span>Enviando...</span>'', disabled = True\<rparr> \<and>
           timers s1 = timers st @ [(clock st + 2000, SubmitDone (innerHTML b))] \<and>
           clock s1 = clock st \<and> inputs s1 = inputs st \<and>
           feedback s1 = Some fd \<and> successMsg s1 = Some sm \<and> scrolls s1 = scrolls st \<and>
           (\<forall>s. feedback s \<noteq> None \<and> successMsg s \<noteq> None \<longrightarrow>
              (\<exists>s2. runTimer (SubmitDone (innerHTML b)) s = Inr s2 \<and>
                 inputs s2 = map (\<lambda>fld. fld\<lparr>fvalue := defaultValue fld\<rparr>) (inputs s) \<and>
                 feedback s2 = Some ''block'' \<and> successMsg s2 = Some ''flex'' \<and>
                 submitBtn s2 = map_option (\<lambda>b'. b'\<lparr>innerHTML := innerHTML b, disabled := False\<rparr>)
                                  (submitBtn s) \<and>
                 timers s2 = timers s @ [(clock s + 5000, HideFeedback)] \<and>
                 clock s2 = clock s \<and> defaultPrevented s2 = defaultPrevented s)) \<and>
           (\<forall>s. feedback s \<noteq> None \<and> successMsg s \<noteq> None \<longrightarrow>
              (\<exists>s3. runTimer HideFeedback s = Inr s3 \<and>
                 feedback s3 = Some ''none'' \<and> successMsg s3 = Some ''none'' \<and>
                 timers s3 = timers s \<and> submitBtn s3 = submitBtn s \<and> inputs s3 = inputs s \<and>
                 clock s3 = clock s \<and> defaultPrevented s3 = defaultPrevented s)) \<and>
           (timers st = [] \<longrightarrow>
              (\<exists>s2 s3.
                 fireNext s1 = Inr s2 \<and>
                 clock s2 = clock st + 2000 \<and>
                 inputs s2 = map (\<lambda>fld. fld\<lparr>fvalue := defaultValue fld\<rparr>) (inputs st) \<and>
                 feedback s2 = Some ''block'' \<and> successMsg s2 = Some ''flex'' \<and>
                 submitBtn s2 = Some \<lparr>innerHTML = innerHTML b, disabled = False\<rparr> \<and>
                 timers s2 = [(clock st + 7000, HideFeedback)] \<and> defaultPrevented s2 \<and>
                 fireNext s2 = Inr s3 \<and>
                 clock s3 = clock st + 7000 \<and>
                 feedback s3 = Some ''none'' \<and> successMsg s3 = Some ''none'' \<and>
                 submitBtn s3 = submitBtn s2 \<and> inputs s3 = inputs s2 \<and> timers s3 = [] \<and>
                 defaultPrevented s3))"
proof -
  define st1 where "st1 = st\<lparr>defaultPrevented := True\<rparr>"
  from validateForm_result [of st1 st] obtain E where
    vf: "validateForm st1 = (list_all (\<lambda>fld. fst (validateField fld st)) (inputs st1), st1\<lparr>errorClass := E\<rparr>)"
    by blast
  from ok have all: "list_all (\<lambda>fld. fst (validateField fld st)) (inputs st1)"
    by (simp add: list_all_iff st1_def)
  define s1 where "s1 = st1\<lparr>errorClass := E,
       submitBtn := Some \<lparr>innerHTML = ''<span>Enviando...</span>'', disabled = True\<rparr>,
       timers := timers st @ [(clock st + 2000, SubmitDone (innerHTML b))]\<rparr>"
  have h1: "handleSubmit st = Inr s1"
    using vf all btn
    by (simp add: handleSubmit_def Let_def st1_def [symmetric] s1_def) (simp add: st1_def)
  have p1: "defaultPrevented s1"
    "submitBtn s1 = Some \<lparr>innerHTML = ''<span>Enviando...</span>'', disabled = True\<rparr>"
    "timers s1 = timers st @ [(clock st + 2000, SubmitDone (innerHTML b))]"
    "clock s1 = clock st" "inputs s1 = inputs st" "feedback s1 = Some fd" "successMsg s1 = Some sm"
    "scrolls s1 = scrolls st"
    using fb by (simp_all add: s1_def st1_def)
  have g2: "\<exists>s2. runTimer (SubmitDone (innerHTML b)) s = Inr s2 \<and>
                 inputs s2 = map (\<lambda>fld. fld\<lparr>fvalue := defaultValue fld\<rparr>) (inputs s) \<and>
                 feedback s2 = Some ''block'' \<and> successMsg s2 = Some ''flex'' \<and>
                 submitBtn s2 = map_option (\<lambda>b'. b'\<lparr>innerHTML := innerHTML b, disabled := False\<rparr>)
                                  (submitBtn s) \<and>
                 timers s2 = timers s @ [(clock s + 5000, HideFeedback)] \<and>
                 clock s2 = clock s \<and> defaultPrevented s2 = defaultPrevented s"
    if "feedback s \<noteq> None \<and> successMsg s \<noteq> None" for s
    using that by (auto simp: Let_def)
  have g3: "\<exists>s3. runTimer HideFeedback s = Inr s3 \<and>
                 feedback s3 = Some ''none'' \<and> successMsg s3 = Some ''none'' \<and>
                 timers s3 = timers s \<and> submitBtn s3 = submitBtn s \<and> inputs s3 = inputs s \<and>
                 clock s3 = clock s \<and> defaultPrevented s3 = defaultPrevented s"
    if "feedback s \<noteq> None \<and> successMsg s \<noteq> None" for s
    using that by auto
  have idle: "\<exists>s2 s3.
                 fireNext s1 = Inr s2 \<and>
                 clock s2 = clock st + 2000 \<and>
                 inputs s2 = map (\<lambda>fld. fld\<lparr>fvalue := defaultValue fld\<rparr>) (inputs st) \<and>
                 feedback s2 = Some ''block'' \<and> successMsg s2 = Some ''flex'' \<and>
                 submitBtn s2 = Some \<lparr>innerHTML = innerHTML b, disabled = False\<rparr> \<and>
                 timers s2 = [(clock st + 7000, HideFeedback)] \<and> defaultPrevented s2 \<and>
                 fireNext s2 = Inr s3 \<and>
                 clock s3 = clock st + 7000 \<and>
                 feedback s3 = Some ''none'' \<and> successMsg s3 = Some ''none'' \<and>
                 submitBtn s3 = submitBtn s2 \<and> inputs s3 = inputs s2 \<and> timers s3 = [] \<and>
                 defaultPrevented s3"
    if none: "timers st = []"
  proof -
    define s2 where "s2 = s1\<lparr>clock := clock st + 2000,
         inputs := map (\<lambda>fld. fld\<lparr>fvalue := defaultValue fld\<rparr>) (inputs st),
         feedback := Some ''block'', successMsg := Some ''flex'',
         submitBtn := Some \<lparr>innerHTML = innerHTML b, disabled = False\<rparr>,
         timers := [(clock st + 7000, HideFeedback)],
         scrolls := scrolls st + 1\<rparr>"
    have h2: "fireNext s1 = Inr s2"
      using fb none by (simp add: fireNext_def s1_def s2_def st1_def Let_def)
    define s3 where "s3 = s2\<lparr>clock := clock st + 7000, timers := [],
         feedback := Some ''none'', successMsg := Some ''none''\<rparr>"
    have h3: "fireNext s2 = Inr s3"
      by (simp add: fireNext_def s2_def s3_def)
    have p2: "clock s2 = clock st + 2000"
      "inputs s2 = map (\<lambda>fld. fld\<lparr>fvalue := defaultValue fld\<rparr>) (inputs st)"
      "feedback s2 = Some ''block''" "successMsg s2 = Some ''flex''"
      "submitBtn s2 = Some \<lparr>innerHTML = innerHTML b, disabled = False\<rparr>"
      "timers s2 = [(clock st + 7000, HideFeedback)]" "defaultPrevented s2"
      by (simp_all add: s2_def s1_def st1_def)
    have p3: "clock s3 = clock st + 7000" "feedback s3 = Some ''none''"
      "successMsg s3 = Some ''none''"
      "submitBtn s3 = submitBtn s2" "inputs s3 = inputs s2" "timers s3 = []" "defaultPrevented s3"
      by (simp_all add: s3_def s2_def s1_def st1_def)
    from h2 h3 p2 p3 show ?thesis by blast
  qed
  from h1 p1 g2 g3 idle show ?thesis by blast
qed

lemma valid_email_a_b_co: "fst (validateField (inputOf ''email'' (js ''a@b.co'') p) st)"
proof -
  have tr: "trim (fvalue (inputOf ''email'' (js ''a@b.co'') p)) = js ''a@b.co''"
    by (simp add: inputOf_def trim_a_b_co)
  have ne: "trim (fvalue (inputOf ''email'' (js ''a@b.co'') p)) \<noteq> []"
    unfolding tr by (simp add: js_def)
  have ty: "ftype (inputOf ''email'' (js ''a@b.co'') p) = ''email''"
    and tg: "tagName (inputOf ''email'' (js ''a@b.co'') p) \<noteq> ''SELECT''"
    by (simp_all add: inputOf_def)
  from validateField_fst_email [OF ty tg ne, of st] test_a_b_co show ?thesis
    by (simp add: tr)
qed

lemma valid_tel_masked:
  "fst (validateField (inputOf ''tel'' (js ''(11) 98765-4321'') p) st)"
proof -
  have tr: "trim (js ''(11) 98765-4321'') = js ''(11) 98765-4321''"
    by (simp add: trim_def js_def isSpace_def)
  have t: "test phoneRegex (js ''(11) 98765-4321'')"
    by (simp add: test_def phoneRegex_def lit_def js_def isDigit_def)
  have ne: "js ''(11) 98765-4321'' \<noteq> []" by (simp add: js_def)
  show ?thesis
    by (simp add: validateField_def inputOf_def Let_def tr t ne)
qed


text \<open>The correctly filled form, submitted at time 0 with nothing pending.\<close>

theorem handleSubmit_valid_simulates_submission_witness:
  "list_all (\<lambda>fld. fst (validateField fld sampleValidForm)) (inputs sampleValidForm)
   \<and> submitBtn sampleValidForm = Some \<lparr>innerHTML = ''Enviar'', disabled = False\<rparr>
   \<and> feedback sampleValidForm = Some ''none'' \<and> successMsg sampleValidForm = Some ''none''
   \<and> timers sampleValidForm = []
   \<and> (\<exists>s1 s2 s3.
         handleSubmit sampleValidForm = Inr s1 \<and> defaultPrevented s1 \<and>
         submitBtn s1 = Some \<lparr>innerHTML = ''<span>Enviando...</span>'', disabled = True\<rparr> \<and>
         timers s1 = [(2000, SubmitDone ''Enviar'')] \<and>
         fireNext s1 = Inr s2 \<and> clock s2 = 2000 \<and>
         feedback s2 = Some ''block'' \<and> successMsg s2 = Some ''flex'' \<and>
         submitBtn s2 = Some \<lparr>innerHTML = ''Enviar'', disabled = False\<rparr> \<and>
         timers s2 = [(7000, HideFeedback)] \<and>
         fireNext s2 = Inr s3 \<and> clock s3 = 7000 \<and>
         feedback s3 = Some ''none'' \<and> successMsg s3 = Some ''none'' \<and> timers s3 = [] \<and>
         defaultPrevented s3)"
proof -
  let ?st = sampleValidForm
  have inp: "inputs ?st = [inputOf ''text'' (js ''Ana'') 1, inputOf ''email'' (js ''a@b.co'') 2,
             inputOf ''tel'' (js ''(11) 98765-4321'') 3]"
    by (simp add: sampleValidForm_def formOf_def)
  have ok: "\<forall>fld \<in> set (inputs ?st). fst (validateField fld ?st)"
    unfolding inp by (simp add: valid_text_Ana valid_email_a_b_co valid_tel_masked)
  have btn: "submitBtn ?st = Some \<lparr>innerHTML = ''Enviar'', disabled = False\<rparr>"
    and fb: "feedback ?st = Some ''none''" "successMsg ?st = Some ''none''"
    and idle: "timers ?st = []" and clk: "clock ?st = 0"
    by (simp_all add: sampleValidForm_def formOf_def)
  from handleSubmit_valid_simulates_submission [OF ok btn fb] idle
  obtain s1 s2 s3 where
    "handleSubmit ?st = Inr s1" "defaultPrevented s1"
    "submitBtn s1 = Some \<lparr>innerHTML = ''<span>Enviando...</span>'', disabled = True\<rparr>"
    "timers s1 = [(2000, SubmitDone ''Enviar'')]"
    "fireNext s1 = Inr s2" "clock s2 = 2000"
    "feedback s2 = Some ''block''" "successMsg s2 = Some ''flex''"
    "submitBtn s2 = Some \<lparr>innerHTML = ''Enviar'', disabled = False\<rparr>"
    "timers s2 = [(7000, HideFeedback)]"
    "fireNext s2 = Inr s3" "clock s3 = 7000"
    "feedback s3 = Some ''none''" "successMsg s3 = Some ''none''" "timers s3 = []"
    "defaultPrevented s3"
    unfolding clk by auto
  moreover from ok have "list_all (\<lambda>fld. fst (validateField fld ?st)) (inputs ?st)"
    by (simp add: list_all_iff)
  ultimately show ?thesis using btn fb idle by blast
qed

lemma validateField_optional_text:
  "validateField ((inputOf ''text'' v p)\<lparr>required := False\<rparr>) st
     = (True, st\<lparr>errorClass := errorClass st - {p}\<rparr>)"
  by (simp add: validateField_def inputOf_def Let_def)

text \<open>
  The claim as stated, for every submission, fails when the form is submitted again
  while the hide callback of the submission before is pending. Submitted at 0, the
  optional form shows the message at 2000 with the button enabled; submitted again at
  2000, it shows the message at 4000, and the first submission's callback hides it at
  7000, which is 3000 ms later and not 5000.
\<close>

theorem handleSubmit_resubmission_hides_early:
  "map_sum id (\<lambda>s. (clock s, successMsg s, map_option disabled (submitBtn s),
                     list_all (\<lambda>fld. fst (validateField fld s)) (inputs s))) submittedOnce
     = Inr (2000, Some ''flex'', Some False, True)
   \<and> map_sum id (\<lambda>s. (clock s, successMsg s, timers s)) submittedTwice
     = Inr (4000, Some ''flex'', [(7000, HideFeedback), (9000, HideFeedback)])
   \<and> map_sum id (\<lambda>s. (clock s, successMsg s, feedback s)) (thenDo submittedTwice fireNext)
     = Inr (7000, Some ''none'', Some ''none'')"
proof -
  define f0 where "f0 = (inputOf ''text'' (js ''Ana'') 1)\<lparr>required := False\<rparr>"
  define f1 where "f1 = f0\<lparr>fvalue := []\<rparr>"
  have f1': "f1 = (inputOf ''text'' [] 1)\<lparr>required := False\<rparr>"
    by (simp add: f1_def f0_def inputOf_def)
  define sending where "sending = \<lparr>innerHTML = ''<span>Enviando...</span>'', disabled = True\<rparr>"
  define ready where "ready = \<lparr>innerHTML = ''Enviar'', disabled = False\<rparr>"
  define a1 where "a1 = \<lparr>inputs = [f0], errorClass = {}, focused = None, defaultPrevented = True,
      submitBtn = Some sending, feedback = Some ''none'', successMsg = Some ''none'',
      timers = [(2000, SubmitDone ''Enviar'')], clock = 0, scrolls = 0\<rparr>"
  define a2 where "a2 = \<lparr>inputs = [f1], errorClass = {}, focused = None, defaultPrevented = True,
      submitBtn = Some ready, feedback = Some ''block'', successMsg = Some ''flex'',
      timers = [(7000, HideFeedback)], clock = 2000, scrolls = 1\<rparr>"
  define a3 where "a3 = \<lparr>inputs = [f1], errorClass = {}, focused = None, defaultPrevented = True,
      submitBtn = Some sending, feedback = Some ''block'', successMsg = Some ''flex'',
      timers = [(7000, HideFeedback), (4000, SubmitDone ''Enviar'')], clock = 2000, scrolls = 1\<rparr>"
  define a4 where "a4 = \<lparr>inputs = [f1], errorClass = {}, focused = None, defaultPrevented = True,
      submitBtn = Some ready, feedback = Some ''block'', successMsg = Some ''flex'',
      timers = [(7000, HideFeedback), (9000, HideFeedback)], clock = 4000, scrolls = 2\<rparr>"
  define a5 where "a5 = \<lparr>inputs = [f1], errorClass = {}, focused = None, defaultPrevented = True,
      submitBtn = Some ready, feedback = Some ''none'', successMsg = Some ''none'',
      timers = [(9000, HideFeedback)], clock = 7000, scrolls = 2\<rparr>"
  have h1: "handleSubmit optionalForm = Inr a1"
    by (simp add: handleSubmit_def validateForm_def optionalForm_def formOf_def Let_def
        f0_def [symmetric])
       (simp add: f0_def validateField_optional_text a1_def sending_def)
  have h2: "fireNext a1 = Inr a2"
    by (simp add: fireNext_def a1_def a2_def f1_def f0_def inputOf_def sending_def ready_def)
  have h3: "handleSubmit a2 = Inr a3"
    by (simp add: handleSubmit_def validateForm_def a2_def Let_def f1' validateField_optional_text)
       (simp add: a3_def f1' ready_def sending_def)
  have h4: "fireNext a3 = Inr a4"
    by (simp add: fireNext_def a3_def a4_def f1_def f0_def inputOf_def sending_def ready_def)
  have h5: "fireNext a4 = Inr a5"
    by (simp add: fireNext_def a4_def a5_def)
  have once: "submittedOnce = Inr a2"
    by (simp add: submittedOnce_def thenDo_def h1 h2)
  have twice: "submittedTwice = Inr a4"
    by (simp add: submittedTwice_def thenDo_def once h3 h4)
  have third: "thenDo submittedTwice fireNext = Inr a5"
    by (simp add: thenDo_def twice h5)
  have v: "list_all (\<lambda>fld. fst (validateField fld a2)) (inputs a2)"
    by (simp add: a2_def f1' validateField_optional_text)
  have 1: "map_sum id (\<lambda>s. (clock s, successMsg s, map_option disabled (submitBtn s),
                     list_all (\<lambda>fld. fst (validateField fld s)) (inputs s))) submittedOnce
     = Inr (2000, Some ''flex'', Some False, True)"
    unfolding once using v by (simp add: a2_def ready_def)
  have 2: "map_sum id (\<lambda>s. (clock s, successMsg s, timers s)) submittedTwice
     = Inr (4000, Some ''flex'', [(7000, HideFeedback), (9000, HideFeedback)])"
    unfolding twice by (simp add: a4_def)
  have 3: "map_sum id (\<lambda>s. (clock s, successMsg s, feedback s)) (thenDo submittedTwice fireNext)
     = Inr (7000, Some ''none'', Some ''none'')"
    unfolding third by (simp add: a5_def)
  from 1 2 3 show ?thesis by blast
qed

lemma construct_other_ok: "c \<noteq> Navigation \<Longrightarrow> \<exists>r. construct pg c = Inr r"
  by (cases c) simp_all

lemma constructAll_others_ok:
  "Navigation \<notin> set cs \<Longrightarrow> \<exists>rs. constructAll pg cs = Inr rs"
proof (induction cs)
  case Nil
  show ?case by simp
next
  case (Cons c cs)
  then obtain r rs where "construct pg c = Inr r" "constructAll pg cs = Inr rs"
    using construct_other_ok [of c pg] by auto
  then show ?case by simp
qed

lemma newNavigation_without_navbar:
  "\<not> navbarEl (nav pg) \<Longrightarrow> newNavigation pg = Inl TypeError"
  by (simp add: newNavigation_def handleScroll_def)

lemma newNavigation_with_navbar:
  "navbarEl (nav pg) \<Longrightarrow> \<exists>st. newNavigation pg = Inr st"
  by (simp add: newNavigation_def handleScroll_def)

lemma initComponents_without_navbar:
  "\<not> navbarEl (nav pg) \<Longrightarrow> initComponents pg = Inl TypeError"
  by (simp add: initComponents_def newNavigation_without_navbar)

lemma initComponents_with_navbar:
  assumes "navbarEl (nav pg)"
  shows "\<exists>rs. initComponents pg = Inr rs"
proof -
  from newNavigation_with_navbar [OF assms] obtain st where n: "newNavigation pg = Inr st" ..
  let ?rest = "[SmoothScroll, FormHandler, BackToTop,
         ParallaxEffect, ScrollReveal, CardTilt, AnimatedCounters, HeroScroll, PartnerSlider,
         LazyImages, AccessibilityHelpers]
        @ (if hostname pg \<noteq> ''localhost'' \<and> hostname pg \<noteq> ''127.0.0.1''
           then [PerformanceMonitor] else [])"
  have "Navigation \<notin> set ?rest" by simp
  from constructAll_others_ok [OF this, of pg] obtain rs where
    rs: "constructAll pg ?rest = Inr rs" ..
  have "initComponents pg = constructAll pg (Navigation # ?rest)"
    by (simp add: initComponents_def)
  also have "\<dots> = Inr ((Navigation, Wired) # rs)"
    by (simp only: constructAll.simps construct.simps n rs sum.case)
  finally show ?thesis by blast
qed

text \<open>
  C5. A missing element should make a constructor return early without error. The
  constructor of Navigation guards the toggle only: without \<open>.navbar\<close> its call of
  \<open>handleScroll\<close> raises \<open>TypeError\<close>, the exception leaves \<open>initComponents\<close>, and none
  of the components after Navigation is constructed. With \<open>.navbar\<close> present the same
  page initialises.
\<close>

theorem initComponents_without_navbar_raises:
  "newNavigation pageWithoutNavbar = Inl TypeError
   \<and> initComponents pageWithoutNavbar = Inl TypeError
   \<and> isl (initComponents pageWithoutNavbar)
   \<and> \<not> isl (initComponents samplePage)"
proof -
  have a: "\<not> navbarEl (nav pageWithoutNavbar)"
    by (simp add: pageWithoutNavbar_def)
  have b: "navbarEl (nav samplePage)"
    by (simp add: samplePage_def sampleNav_def)
  from initComponents_with_navbar [OF b] have "\<not> isl (initComponents samplePage)" by auto
  with newNavigation_without_navbar [OF a] initComponents_without_navbar [OF a]
  show ?thesis by simp
qed













lemma frames_agree: "srFrames rnd tgt step fuel c = acFrames rnd tgt step fuel c"
proof (induction fuel arbitrary: c)
  case 0
  show ?case by simp
next
  case (Suc fuel)
  show ?case
  proof (cases "rnd (c + step) < of_int tgt")
    case True
    then have "min (rnd (c + step)) (of_int tgt) = rnd (c + step)" by simp
    with True Suc.IH [of "rnd (c + step)"] show ?thesis by (simp add: Let_def)
  next
    case False
    then have "min (rnd (c + step)) (of_int tgt) = of_int tgt" by simp
    with False show ?thesis by (simp add: Let_def)
  qed
qed

text \<open>
  C10. Frame by frame the two animations show the same text, for every target, every
  rounding and every number of frames; in particular both are still running, or both
  have ended on the same final text.
\<close>

theorem animateCounter_eq_animateValue:
  "animateCounter rnd tgt fuel = animateValue rnd tgt fuel"
  by (simp add: animateCounter_def animateValue_def frames_agree)

lemma acFrames_more_fuel:
  "acFrames rnd tgt step n c = Some ds \<Longrightarrow> acFrames rnd tgt step (n + k) c = Some ds"
proof (induction n arbitrary: c ds)
  case 0
  then show ?case by simp
next
  case (Suc n)
  define c' where "c' = min (rnd (c + step)) (of_int tgt)"
  show ?case
  proof (cases "c' < of_int tgt")
    case True
    with Suc.prems obtain ds' where ds': "acFrames rnd tgt step n c' = Some ds'"
      "ds = \<lfloor>c'\<rfloor> # ds'"
      by (auto simp: Let_def c'_def [symmetric])
    from Suc.IH [OF ds'(1)] True ds'(2) show ?thesis
      by (simp add: Let_def c'_def [symmetric])
  next
    case False
    with Suc.prems show ?thesis by (simp add: Let_def c'_def [symmetric])
  qed
qed

lemma rounding_coarse:
  assumes "roundsLikeDouble rnd" "0 \<le> x"
  shows "x - x / 1000 \<le> rnd x"
proof -
  from assms have "\<bar>rnd x - x\<bar> \<le> x / 2 ^ 53" by (simp add: roundsLikeDouble_def)
  moreover have "x / 2 ^ 53 \<le> x / 1000"
    using assms(2) by (intro divide_left_mono) simp_all
  ultimately show ?thesis by linarith
qed

lemma step_lower:
  assumes r: "roundsLikeDouble rnd" and t: "0 < tgt"
  defines "step \<equiv> rnd (of_int tgt / rnd (2000 / 16))"
  shows "of_int tgt * (999 / 125000) \<le> step"
proof -
  from r have "rnd 125 = 125" by (simp add: roundsLikeDouble_def)
  then have s: "step = rnd (of_int tgt / 125)" by (simp add: step_def)
  from t have "0 \<le> (of_int tgt :: real) / 125" by simp
  from rounding_coarse [OF r this] show ?thesis unfolding s by linarith
qed

lemma frame_progress:
  assumes r: "roundsLikeDouble rnd" and t: "0 < tgt"
    and s: "of_int tgt * (999 / 125000) \<le> step"
    and c: "0 \<le> c" "c < of_int tgt"
  shows "c + of_int tgt / 250 \<le> rnd (c + step)"
proof -
  from t have T: "0 < (of_int tgt :: real)" by simp
  with s have "0 \<le> step" by linarith
  with c have "0 \<le> c + step" by simp
  from rounding_coarse [OF r this] have "c + step - (c + step) / 1000 \<le> rnd (c + step)" .
  then have r1: "999 * (c + step) \<le> 1000 * rnd (c + step)" by (simp add: field_simps)
  from s have s1: "999 * of_int tgt \<le> 125000 * step" by (simp add: field_simps)
  have "250 * c + of_int tgt \<le> 250 * rnd (c + step)"
    using r1 s1 c T by argo
  then show ?thesis by (simp add: field_simps)
qed

lemma floor_le_target:
  fixes c :: real
  shows "c < of_int tgt \<Longrightarrow> \<lfloor>c\<rfloor> \<le> tgt"
  by (meson floor_less_iff less_le_not_le linorder_le_cases order_less_le_trans)

lemma acFrames_Suc:
  "acFrames rnd tgt step (Suc n) c =
     (if rnd (c + step) < of_int tgt
      then map_option (\<lambda>shown. \<lfloor>rnd (c + step)\<rfloor> # shown)
             (acFrames rnd tgt step n (rnd (c + step)))
      else Some [tgt])"
proof (cases "rnd (c + step) < of_int tgt")
  case True
  then have "min (rnd (c + step)) (of_int tgt) = rnd (c + step)" by simp
  with True show ?thesis by (simp add: Let_def)
next
  case False
  then have "min (rnd (c + step)) (of_int tgt) = of_int tgt" by simp
  with False show ?thesis by (simp add: Let_def)
qed

lemma acFrames_terminates:
  assumes r: "roundsLikeDouble rnd" and t: "0 < tgt"
    and s: "of_int tgt * (999 / 125000) \<le> step"
  shows "0 \<le> c \<Longrightarrow> c < of_int tgt \<Longrightarrow> of_int tgt - c \<le> of_nat n * (of_int tgt / 250) \<Longrightarrow>
         \<exists>ds. acFrames rnd tgt step (Suc n) c = Some ds \<and> ds \<noteq> [] \<and> sorted ds \<and>
              last ds = tgt \<and> (\<forall>d \<in> set ds. \<lfloor>c\<rfloor> \<le> d)"
proof (induction n arbitrary: c)
  case 0
  then show ?case by simp
next
  case (Suc m)
  define c' where "c' = rnd (c + step)"
  have prog: "c + of_int tgt / 250 \<le> c'"
    unfolding c'_def by (rule frame_progress [OF r t s Suc.prems(1,2)])
  from t have T: "0 < (of_int tgt :: real)" by simp
  with prog have cc': "c \<le> c'" by linarith
  show ?case
  proof (cases "c' < of_int tgt")
    case False
    then have "acFrames rnd tgt step (Suc (Suc m)) c = Some [tgt]"
      unfolding c'_def by (subst acFrames_Suc) simp
    moreover have "\<lfloor>c\<rfloor> \<le> tgt" using Suc.prems(2) by (rule floor_le_target)
    ultimately show ?thesis by simp
  next
    case True
    then have m: "min c' (of_int tgt) = c'" by simp
    from Suc.prems(1) cc' have c0: "0 \<le> c'" by simp
    have "of_int tgt - c' \<le> of_nat (Suc m) * (of_int tgt / 250) - of_int tgt / 250"
      using Suc.prems(3) prog by linarith
    also have "\<dots> = of_nat m * (of_int tgt / 250)" by (simp add: algebra_simps)
    finally have rem: "of_int tgt - c' \<le> of_nat m * (of_int tgt / 250)" .
    from Suc.IH [OF c0 True rem] obtain ds where
      ds: "acFrames rnd tgt step (Suc m) c' = Some ds" "ds \<noteq> []" "sorted ds" "last ds = tgt"
        "\<forall>d \<in> set ds. \<lfloor>c'\<rfloor> \<le> d"
      by blast
    have run: "acFrames rnd tgt step (Suc (Suc m)) c = Some (\<lfloor>c'\<rfloor> # ds)"
      using True ds(1) unfolding c'_def by (subst acFrames_Suc) (simp del: acFrames.simps)
    from cc' have fl: "\<lfloor>c\<rfloor> \<le> \<lfloor>c'\<rfloor>" by (rule floor_mono)
    have "sorted (\<lfloor>c'\<rfloor> # ds)" using ds(3,5) by simp
    moreover have "last (\<lfloor>c'\<rfloor> # ds) = tgt" using ds(2,4) by simp
    moreover have "\<forall>d \<in> set (\<lfloor>c'\<rfloor> # ds). \<lfloor>c\<rfloor> \<le> d"
      using fl ds(5) by auto
    ultimately show ?thesis using run by blast
  qed
qed


text \<open>
  C3. For a positive target and any rounding that behaves like double arithmetic,
  both animations end, after at most 251 frames; the texts shown frame after frame
  never decrease, and the last one is exactly the target.
\<close>

theorem counter_animation_reaches_target:
  assumes t: "0 < tgt" and r: "roundsLikeDouble rnd"
  shows "\<exists>n shown. n \<le> 251 \<and>
           (\<forall>fuel \<ge> n. animateValue rnd tgt fuel = Some shown \<and>
                       animateCounter rnd tgt fuel = Some shown) \<and>
           shown \<noteq> [] \<and> sorted shown \<and> last shown = tgt"
proof -
  define step where "step = rnd (of_int tgt / rnd (2000 / 16))"
  have s: "of_int tgt * (999 / 125000) \<le> step"
    unfolding step_def by (rule step_lower [OF r t])
  from t have T: "0 < (of_int tgt :: real)" by simp
  have "of_int tgt - 0 \<le> of_nat 250 * (of_int tgt / 250 :: real)" by simp
  from acFrames_terminates [OF r t s order_refl T this] obtain shown where
    run: "acFrames rnd tgt step (Suc 250) 0 = Some shown"
    and sh: "shown \<noteq> []" "sorted shown" "last shown = tgt"
    by blast
  have "animateValue rnd tgt fuel = Some shown \<and> animateCounter rnd tgt fuel = Some shown"
    if "251 \<le> fuel" for fuel
  proof -
    from that obtain k where k: "fuel = Suc 250 + k"
      by (metis le_Suc_ex eval_nat_numeral(3) numeral_plus_one semiring_norm(5) add_Suc_right add_0_right Suc_numeral)
    from acFrames_more_fuel [OF run, of k] have "acFrames rnd tgt step fuel 0 = Some shown"
      by (simp only: k)
    then show ?thesis
      by (simp add: animateValue_def animateCounter_def frames_agree step_def Let_def)
  qed
  with sh show ?thesis by (intro exI [of _ 251] exI [of _ shown]) simp
qed

text \<open>Exact arithmetic is such a rounding; the target 1.\<close>

theorem counter_animation_reaches_target_witness:
  "(0::int) < 1 \<and> roundsLikeDouble (\<lambda>x. x)
   \<and> (\<exists>n shown. n \<le> 251 \<and> animateValue (\<lambda>x. x) 1 n = Some shown \<and>
          animateCounter (\<lambda>x. x) 1 n = Some shown \<and>
          shown \<noteq> [] \<and> sorted shown \<and> last shown = 1)"
proof -
  have r: "roundsLikeDouble (\<lambda>x. x)" by (simp add: roundsLikeDouble_def)
  have t: "(0::int) < 1" by simp
  from counter_animation_reaches_target [OF t r] obtain n shown where
    "n \<le> 251" "animateValue (\<lambda>x. x) 1 n = Some shown \<and> animateCounter (\<lambda>x. x) 1 n = Some shown"
    "shown \<noteq> []" "sorted shown" "last shown = 1"
    by blast
  with r t show ?thesis by blast
qed





lemma settled_now [simp]: "settled x (st\<lparr>now := t\<rparr>) = settled x st"
  by (simp add: settled_def split: option.splits)

lemma visible_now [simp]: "visible (st\<lparr>now := t\<rparr>) = visible st"
  by (simp add: visible_def)

lemma settled_pending [simp]: "settled x (st\<lparr>pending := p\<rparr>) = settled x st"
  by (simp add: settled_def split: option.splits)

lemma visible_pending [simp]: "visible (st\<lparr>pending := p\<rparr>) = visible st"
  by (simp add: visible_def)









lemma srCallback_fields:
  "revealed (srCallback es st) = revealed st" "counted (srCallback es st) = counted st"
  "started (srCallback es st) = started st" "now (srCallback es st) = now st"
  "pending (srCallback es st) =
     pending st @ map (\<lambda>e. (now st + delay (target e), target e)) (filter isIntersecting es)"
  "srObserved (srCallback es st) = srObserved st - (\<lambda>e. eid (target e)) ` set (filter isIntersecting es)"
  unfolding srCallback_def
  by (induction es arbitrary: st; auto simp: srEntry_def)+

lemma srCallback_settled [simp]: "settled x (srCallback es st) = settled x st"
  by (simp add: settled_def srCallback_fields split: option.splits)

lemma srCallback_visible [simp]: "visible (srCallback es st) = visible st"
  by (simp add: visible_def srCallback_fields)





lemma acEntry_reveal [simp]: "revealed (acEntry e st) = revealed st"
  by (simp add: acEntry_def startAnimateValue_def)



















end
